theory Spec2Isabelle
  imports Complex_Main "HOL-Library.AList"
begin

section \<open>JavaScript values used by the asset graph\<close>

text \<open>
  A JavaScript object with string keys is an association list: \<open>Object.keys\<close> lists the
  keys in insertion order, an assignment to a key that is already there keeps its place,
  and an assignment to a new key appends it. Every key of the graph is the output of
  \<open>JSON.stringify\<close> on an array, so it starts with a bracket: no key is an array index
  (which \<open>Object.keys\<close> would list first) and no key is a property of \<open>Object.prototype\<close>.
\<close>

type_synonym 'v obj = "(string \<times> 'v) list"

definition obj_get :: "'v obj \<Rightarrow> string \<Rightarrow> 'v option" where
  "obj_get ob k = map_of ob k"

definition obj_set :: "'v obj \<Rightarrow> string \<Rightarrow> 'v \<Rightarrow> 'v obj" where
  "obj_set ob k v = AList.update k v ob"

definition obj_keys :: "'v obj \<Rightarrow> string list" where
  "obj_keys ob = map fst ob"

definition obj_values :: "'v obj \<Rightarrow> 'v list" where
  "obj_values ob = map snd ob"

text \<open>\<open>Array.prototype.join\<close> on an array of strings.\<close>

fun join :: "string \<Rightarrow> string list \<Rightarrow> string" where
  "join sep [] = []"
| "join sep [x] = x"
| "join sep (x # y # ys) = x @ sep @ join sep (y # ys)"

text \<open>
  \<open>JSON.stringify\<close> on an array of strings: the quoted, escaped strings, separated by
  commas, in brackets.
\<close>

definition hex_digit :: "nat \<Rightarrow> char" where
  "hex_digit n = (if n < 10 then char_of (48 + n) else char_of (87 + n))"

definition json_escape :: "char \<Rightarrow> string" where
  "json_escape c =
     (if c = CHR 0x22 then [CHR 0x5C, CHR 0x22]
      else if c = CHR 0x5C then [CHR 0x5C, CHR 0x5C]
      else if c = CHR 0x08 then [CHR 0x5C, CHR ''b'']
      else if c = CHR 0x0C then [CHR 0x5C, CHR ''f'']
      else if c = CHR 0x0A then [CHR 0x5C, CHR ''n'']
      else if c = CHR 0x0D then [CHR 0x5C, CHR ''r'']
      else if c = CHR 0x09 then [CHR 0x5C, CHR ''t'']
      else if (of_char c :: nat) < 32 then
        [CHR 0x5C, CHR ''u'', CHR ''0'', CHR ''0'',
         hex_digit (of_char c div 16), hex_digit (of_char c mod 16)]
      else [c])"

definition json_quote :: "string \<Rightarrow> string" where
  "json_quote s = [CHR 0x22] @ concat (map json_escape s) @ [CHR 0x22]"

definition JSON_stringify :: "string list \<Rightarrow> string" where
  "JSON_stringify p = ''['' @ join '','' (map json_quote p) @ '']''"

text \<open>
  \<open>Array.prototype.some\<close> with a callback that changes a state and may not return: the
  elements are tried in order, the first one the callback accepts ends the loop, and a
  callback that does not return leaves the loop without a result.
\<close>

fun array_some :: "('a \<Rightarrow> 's \<Rightarrow> (bool \<times> 's) option) \<Rightarrow> 'a list \<Rightarrow> 's \<Rightarrow> (bool \<times> 's) option" where
  "array_some f [] s = Some (False, s)"
| "array_some f (x # xs) s =
     (case f x s of
        None \<Rightarrow> None
      | Some (b, s') \<Rightarrow> if b then Some (True, s') else array_some f xs s')"

lemma array_some_mono [partial_function_mono]:
  fixes C :: "('c \<Rightarrow> 'd option) \<Rightarrow> 'a \<Rightarrow> 's \<Rightarrow> (bool \<times> 's) option"
  assumes "\<And>x s. mono_option (\<lambda>f. C f x s)"
  shows "mono_option (\<lambda>f. array_some (C f) xs s)"
proof (rule monotoneI)
  fix f g :: "'c \<Rightarrow> 'd option"
  assume fg: "fun_ord option_ord f g"
  have "option_ord (C f x s) (C g x s)" for x s
    using assms by (rule monotoneD) (rule fg)
  then have step: "\<And>x s. C f x s = None \<or> C f x s = C g x s"
    by (simp add: flat_ord_def)
  show "option_ord (array_some (C f) xs s) (array_some (C g) xs s)"
  proof (induction xs arbitrary: s)
    case Nil
    show ?case by (simp add: flat_ord_def)
  next
    case (Cons x xs)
    from step [of x s] show ?case
    proof
      assume "C f x s = None"
      then show ?thesis by (simp add: flat_ord_def)
    next
      assume eq: "C f x s = C g x s"
      show ?thesis
      proof (cases "C g x s")
        case None
        with eq show ?thesis by (simp add: flat_ord_def)
      next
        case (Some r)
        obtain b s' where r: "r = (b, s')" by (cases r)
        show ?thesis using eq Some r Cons.IH [of s'] by (simp add: flat_ord_def)
      qed
    qed
  qed
qed

section \<open>The data model\<close>

text \<open>
  The records of the GraphQL query \<open>AssetGraphQuery\<close>, with the fields the graph code reads.
  \<open>runOrError\<close> is a union: the \<open>PipelineRun\<close> variant (run id, status, pipeline name,
  mode) or another variant, kept with its \<open>__typename\<close>. Times are JSON numbers.
\<close>

record AssetKey =
  path :: "string list"

datatype runOrError =
    PipelineRun string string string string
  | OtherRunResult string

record stepStats =
  stepKey :: string
  startTime :: "rat option"
  endTime :: "rat option"

record materializationEvent =
  stepStats :: "stepStats option"

record assetMaterialization =
  materializationEvent :: materializationEvent
  runOrError :: runOrError

record dependency =
  inputName :: string
  upstreamAsset_assetKey :: AssetKey

record AssetDefinition =
  assetKey :: AssetKey
  description :: "string option"
  jobNames :: "string list"
  dependencies :: "dependency list"
  assetMaterializations :: "assetMaterialization list"

record Node =
  node_id :: string
  node_assetKey :: AssetKey
  node_definition :: AssetDefinition

record GraphData =
  nodes :: "Node obj"
  downstream :: "(string obj) obj"

datatype Status = good | old | downstream_from_old | none

datatype js_error = TypeError

record dimensions =
  width :: rat
  height :: rat

section \<open>Node dimensions\<close>

text \<open>
  \<open>runForDisplay\<close> reads \<open>__typename\<close> of the first materialization's \<open>runOrError\<close>; with
  no first materialization the optional chain gives \<open>undefined\<close> and the property read
  throws.
\<close>

definition runForDisplay :: "AssetDefinition \<Rightarrow> js_error + runOrError option" where
  "runForDisplay d =
     (case assetMaterializations d of
        [] \<Rightarrow> Inl TypeError
      | m # _ \<Rightarrow>
          (case runOrError m of
             PipelineRun _ _ _ _ \<Rightarrow> Inr (Some (runOrError m))
           | OtherRunResult _ \<Rightarrow> Inr None))"

text \<open>A string or null in a condition: null and the empty string are falsy.\<close>

definition truthy :: "string option \<Rightarrow> bool" where
  "truthy s = (case s of None \<Rightarrow> False | Some t \<Rightarrow> t \<noteq> [])"

definition getNodeDimensions :: "AssetDefinition \<Rightarrow> js_error + dimensions" where
  "getNodeDimensions d =
     (let height0 = 40;
          height1 = (if truthy (description d) then height0 + 25 else height0)
      in case (if length (assetMaterializations d) \<noteq> 0 then
                 (case runForDisplay d of
                    Inl e \<Rightarrow> Inl e
                  | Inr r \<Rightarrow> Inr (if r \<noteq> None then height1 + 22 + 22 else height1 + 22))
               else Inr height1) of
           Inl e \<Rightarrow> Inl e
         | Inr height2 \<Rightarrow>
             Inr \<lparr>width = max 250 (of_nat (length (join ''>'' (path (assetKey d)))) * (19 / 2)) + 25,
                  height = height2\<rparr>)"

section \<open>Building the graph\<close>

definition add_dependency :: "string \<Rightarrow> (string obj) obj \<Rightarrow> dependency \<Rightarrow> (string obj) obj" where
  "add_dependency assetKeyJson ds dep =
     (let upstreamAssetKeyJson = JSON_stringify (path (upstreamAsset_assetKey dep))
      in obj_set ds upstreamAssetKeyJson
           (obj_set (case obj_get ds upstreamAssetKeyJson of None \<Rightarrow> [] | Some d \<Rightarrow> d)
              assetKeyJson (inputName dep)))"

definition add_definition :: "GraphData \<Rightarrow> AssetDefinition \<Rightarrow> GraphData" where
  "add_definition g d =
     (let assetKeyJson = JSON_stringify (path (assetKey d))
      in \<lparr>nodes = obj_set (nodes g) assetKeyJson
                    \<lparr>node_id = assetKeyJson, node_assetKey = assetKey d, node_definition = d\<rparr>,
          downstream = foldl (add_dependency assetKeyJson) (downstream g) (dependencies d)\<rparr>)"

definition buildGraphData :: "AssetDefinition list \<Rightarrow> GraphData" where
  "buildGraphData assetDefinitions =
     foldl add_definition \<lparr>nodes = [], downstream = []\<rparr> assetDefinitions"

section \<open>Cycle detection\<close>

text \<open>\<open>Object.keys(graphData.downstream[node] || {})\<close>: the downstream ids of a node.\<close>

definition downstream_keys :: "GraphData \<Rightarrow> string \<Rightarrow> string list" where
  "downstream_keys graphData node =
     obj_keys (case obj_get (downstream graphData) node of None \<Rightarrow> [] | Some d \<Rightarrow> d)"

text \<open>
  The set \<open>nodes\<close> of \<open>graphHasCycles\<close> is shared by every call of \<open>search\<close>: it is passed
  in and returned. A JavaScript \<open>Set\<close> iterates in insertion order, so it is a list, and
  \<open>nodes.delete(node)\<close> is true exactly when the node was in it.
\<close>

partial_function (option) search ::
  "GraphData \<Rightarrow> string list \<Rightarrow> string \<Rightarrow> string list \<Rightarrow> (bool \<times> string list) option" where
  "search graphData stack node nodes_set =
     (if node \<in> set stack then Some (True, nodes_set)
      else if node \<in> set nodes_set then
        array_some (\<lambda>nextNode ns. search graphData (stack @ [node]) nextNode ns)
          (downstream_keys graphData node) (removeAll node nodes_set)
      else Some (False, nodes_set))"

text \<open>
  The loop \<open>while (nodes.size !== 0) hasCycles = hasCycles || search([], first)\<close>: once
  \<open>hasCycles\<close> is true, \<open>||\<close> does not evaluate \<open>search\<close>, and the set stays as it is.
\<close>

partial_function (option) cycles_loop :: "GraphData \<Rightarrow> bool \<Rightarrow> string list \<Rightarrow> bool option" where
  "cycles_loop graphData hasCycles nodes_set =
     (if nodes_set = [] then Some hasCycles
      else if hasCycles then cycles_loop graphData True nodes_set
      else (case search graphData [] (hd nodes_set) nodes_set of
              None \<Rightarrow> None
            | Some (r, nodes') \<Rightarrow> cycles_loop graphData r nodes'))"

definition graphHasCycles :: "GraphData \<Rightarrow> bool option" where
  "graphHasCycles graphData = cycles_loop graphData False (obj_keys (nodes graphData))"

section \<open>Compute statuses\<close>

text \<open>\<open>a > b\<close> on numbers that may be \<open>undefined\<close>: false unless both are numbers.\<close>

definition js_gt :: "rat option \<Rightarrow> rat option \<Rightarrow> bool" where
  "js_gt a b = (case (a, b) of (Some x, Some y) \<Rightarrow> y < x | _ \<Rightarrow> False)"

text \<open>
  The memo \<open>statuses\<close> is shared by every call: it is passed in and returned. The value of
  an id is stored only after the calls for its upstream ids have returned.
\<close>

partial_function (option) findComputeStatusForId ::
  "rat obj \<Rightarrow> Status obj \<Rightarrow> (string list) obj \<Rightarrow> string \<Rightarrow> (Status \<times> Status obj) option" where
  "findComputeStatusForId timestamps statuses upstream ident =
     (let ts = obj_get timestamps ident;
          upstreamIds = (case obj_get upstream ident of None \<Rightarrow> [] | Some us \<Rightarrow> us)
      in case obj_get statuses ident of
           Some st \<Rightarrow> Some (st, statuses)
         | None \<Rightarrow>
             if list_ex (\<lambda>uid. js_gt (obj_get timestamps uid) ts) upstreamIds
             then Some (old, obj_set statuses ident old)
             else
               Option.bind
                 (array_some
                    (\<lambda>uid sts.
                       Option.bind (findComputeStatusForId timestamps sts upstream uid)
                         (\<lambda>(st, sts'). Some (st \<noteq> good, sts')))
                    upstreamIds statuses)
                 (\<lambda>(b, statuses').
                    let st = (if b then downstream_from_old else good)
                    in Some (st, obj_set statuses' ident st)))"

definition timestamp_of :: "AssetDefinition \<Rightarrow> rat" where
  "timestamp_of d =
     (case assetMaterializations d of
        [] \<Rightarrow> 0
      | m # _ \<Rightarrow>
          (case stepStats (materializationEvent m) of
             None \<Rightarrow> 0
           | Some ss \<Rightarrow> (case startTime ss of None \<Rightarrow> 0 | Some t \<Rightarrow> t)))"

definition collect_timestamps :: "GraphData \<Rightarrow> rat obj" where
  "collect_timestamps graphData =
     foldl (\<lambda>timestamps n. obj_set timestamps (node_id n) (timestamp_of (node_definition n)))
       [] (obj_values (nodes graphData))"

definition push_upstream :: "string \<Rightarrow> (string list) obj \<Rightarrow> string \<Rightarrow> (string list) obj" where
  "push_upstream upstreamId upstream downstreamId =
     obj_set upstream downstreamId
       ((case obj_get upstream downstreamId of None \<Rightarrow> [] | Some us \<Rightarrow> us) @ [upstreamId])"

text \<open>
  The downstream ids of \<open>upstreamId\<close> are read with \<open>graphData.downstream[upstreamId]\<close>,
  which is there since \<open>upstreamId\<close> is one of the keys.
\<close>

definition invert_downstream :: "GraphData \<Rightarrow> (string list) obj" where
  "invert_downstream graphData =
     foldl (\<lambda>upstream upstreamId.
              foldl (push_upstream upstreamId) upstream (downstream_keys graphData upstreamId))
       [] (obj_keys (downstream graphData))"

definition mark_none :: "GraphData \<Rightarrow> Status obj" where
  "mark_none graphData =
     foldl (\<lambda>statuses asset.
              if length (assetMaterializations (node_definition asset)) = 0
              then obj_set statuses (node_id asset) none else statuses)
       [] (obj_values (nodes graphData))"

fun status_loop ::
  "rat obj \<Rightarrow> (string list) obj \<Rightarrow> Node list \<Rightarrow> Status obj \<Rightarrow> Status obj option" where
  "status_loop timestamps upstream [] statuses = Some statuses"
| "status_loop timestamps upstream (asset # rest) statuses =
     (let ident = JSON_stringify (path (node_assetKey asset))
      in case findComputeStatusForId timestamps statuses upstream ident of
           None \<Rightarrow> None
         | Some (st, statuses') \<Rightarrow>
             status_loop timestamps upstream rest (obj_set statuses' ident st))"

definition buildGraphComputeStatuses :: "GraphData \<Rightarrow> Status obj option" where
  "buildGraphComputeStatuses graphData =
     status_loop (collect_timestamps graphData) (invert_downstream graphData)
       (obj_values (nodes graphData)) (mark_none graphData)"

section \<open>Example inputs\<close>

text \<open>
  An asset definition with a one-segment key, no description, dependencies given as
  (input name, upstream name) pairs, and the given materializations.
\<close>

definition asset ::
  "string \<Rightarrow> (string \<times> string) list \<Rightarrow> assetMaterialization list \<Rightarrow> AssetDefinition" where
  "asset name deps mats =
     \<lparr>assetKey = \<lparr>path = [name]\<rparr>, description = None, jobNames = [],
      dependencies =
        map (\<lambda>(inp, up). \<lparr>inputName = inp, upstreamAsset_assetKey = \<lparr>path = [up]\<rparr>\<rparr>) deps,
      assetMaterializations = mats\<rparr>"

definition materialized_at :: "rat \<Rightarrow> assetMaterialization" where
  "materialized_at t =
     \<lparr>materializationEvent =
        \<lparr>stepStats = Some \<lparr>stepKey = ''step'', startTime = Some t, endTime = Some t\<rparr>\<rparr>,
      runOrError = PipelineRun ''run'' ''SUCCESS'' ''job'' ''default''\<rparr>"

text \<open>The key of the node of a one-segment asset key.\<close>

definition key :: "string \<Rightarrow> string" where
  "key name = JSON_stringify [name]"

text \<open>A two-cycle between A and B, and a third asset C with no dependency.\<close>

definition two_cycle_and_node :: "AssetDefinition list" where
  "two_cycle_and_node =
     [asset ''A'' [(''x'', ''B'')] [], asset ''B'' [(''y'', ''A'')] [], asset ''C'' [] []]"

text \<open>The directed cycle A, B, C, A.\<close>

definition three_cycle_defs :: "AssetDefinition list" where
  "three_cycle_defs =
     [asset ''A'' [(''x'', ''C'')] [], asset ''B'' [(''x'', ''A'')] [],
      asset ''C'' [(''x'', ''B'')] []]"

text \<open>
  Two components without a cycle: the diamond A to B and C, both to D, and the pair E to F.
\<close>

definition diamond_and_pair :: "AssetDefinition list" where
  "diamond_and_pair =
     [asset ''A'' [] [], asset ''B'' [(''x'', ''A'')] [], asset ''C'' [(''x'', ''A'')] [],
      asset ''D'' [(''l'', ''B''), (''r'', ''C'')] [], asset ''E'' [] [],
      asset ''F'' [(''x'', ''E'')] []]"

definition diamond_rank :: "string \<Rightarrow> nat" where
  "diamond_rank k =
     (if k = key ''A'' \<or> k = key ''E'' then 0
      else if k = key ''B'' \<or> k = key ''C'' \<or> k = key ''F'' then 1 else 2)"

section \<open>The edge relation of a graph\<close>

text \<open>
  An edge goes from an upstream id to each of its downstream ids. A graph is acyclic when
  this relation is.
\<close>

definition edges :: "GraphData \<Rightarrow> (string \<times> string) set" where
  "edges g = {(u, d). d \<in> set (downstream_keys g u)}"

text \<open>
  A well-formed graph: one node per key, and each node carries its key as its id and as
  the serialization of its asset key, as \<open>buildGraphData\<close> stores it.
\<close>

definition wf_graph :: "GraphData \<Rightarrow> bool" where
  "wf_graph g \<longleftrightarrow>
     distinct (obj_keys (nodes g)) \<and>
     (\<forall>(k, n) \<in> set (nodes g). node_id n = k \<and> JSON_stringify (path (node_assetKey n)) = k)"

text \<open>The timestamp collected for a node id; none for an id that is not a node.\<close>

definition node_timestamp :: "GraphData \<Rightarrow> string \<Rightarrow> rat option" where
  "node_timestamp g k = map_option (\<lambda>n. timestamp_of (node_definition n)) (obj_get (nodes g) k)"

section \<open>Edges as declared by the dependency records\<close>

text \<open>The input name stored for the edge from \<open>u\<close> to \<open>d\<close>, if any.\<close>

definition lookup_edge :: "(string obj) obj \<Rightarrow> string \<Rightarrow> string \<Rightarrow> string option" where
  "lookup_edge ds u d = (case obj_get ds u of None \<Rightarrow> None | Some dm \<Rightarrow> obj_get dm d)"

text \<open>
  The dependency records of a definition list in the order \<open>buildGraphData\<close> visits them,
  each as ((upstream id, downstream id), input name).
\<close>

definition declared_edges :: "AssetDefinition list \<Rightarrow> ((string \<times> string) \<times> string) list" where
  "declared_edges defs =
     concat (map (\<lambda>d. map (\<lambda>dep. ((JSON_stringify (path (upstreamAsset_assetKey dep)),
                                       JSON_stringify (path (assetKey d))), inputName dep))
                          (dependencies d)) defs)"

text \<open>No key occurs twice, in the adjacency or in any of its inner objects.\<close>

definition well_keyed :: "(string obj) obj \<Rightarrow> bool" where
  "well_keyed ds \<longleftrightarrow>
     distinct (obj_keys ds) \<and> (\<forall>dm \<in> set (obj_values ds). distinct (obj_keys dm))"

section \<open>The status rule\<close>

text \<open>\<open>upstream[id] || []\<close>, and the first test of \<open>findComputeStatusForId\<close>.\<close>

definition upstream_ids :: "(string list) obj \<Rightarrow> string \<Rightarrow> string list" where
  "upstream_ids upstream ident = (case obj_get upstream ident of None \<Rightarrow> [] | Some us \<Rightarrow> us)"

definition newer_upstream :: "rat obj \<Rightarrow> (string list) obj \<Rightarrow> string \<Rightarrow> bool" where
  "newer_upstream timestamps upstream d =
     list_ex (\<lambda>uid. js_gt (obj_get timestamps uid) (obj_get timestamps d))
       (upstream_ids upstream d)"

definition upstream_rel :: "(string list) obj \<Rightarrow> (string \<times> string) set" where
  "upstream_rel upstream = {(u, d). u \<in> set (upstream_ids upstream d)}"

text \<open>
  A status \<open>s\<close> of \<open>d\<close> agrees with the memo \<open>m\<close>: old with a newer upstream;
  otherwise downstream-from-old with an upstream whose status is in the memo and not good,
  or good with every upstream good in the memo. The memo is consistent when the ids marked
  none at the start (the set \<open>Z\<close>) still are, and every other entry agrees with it.
\<close>

definition rule_ok ::
  "rat obj \<Rightarrow> (string list) obj \<Rightarrow> (string \<rightharpoonup> Status) \<Rightarrow> string \<Rightarrow> Status \<Rightarrow> bool" where
  "rule_ok timestamps upstream m d s =
     (if newer_upstream timestamps upstream d then s = old
      else (s = downstream_from_old \<and>
              (\<exists>u \<in> set (upstream_ids upstream d). \<exists>s'. m u = Some s' \<and> s' \<noteq> good))
         \<or> (s = good \<and> (\<forall>u \<in> set (upstream_ids upstream d). m u = Some good)))"

definition memo_ok ::
  "rat obj \<Rightarrow> (string list) obj \<Rightarrow> string set \<Rightarrow> (string \<rightharpoonup> Status) \<Rightarrow> bool" where
  "memo_ok timestamps upstream Z m =
     (Z \<subseteq> dom m \<and>
      (\<forall>d s. m d = Some s \<longrightarrow>
         (if d \<in> Z then s = none else rule_ok timestamps upstream m d s)))"

section \<open>More example inputs\<close>

text \<open>
  A chain A, B, C, N: A (time 10) has a dependency on G, which no definition declares;
  B (time 5) depends on A, C (time 20) on B, and N, never materialized, on C.
\<close>

definition chain_defs :: "AssetDefinition list" where
  "chain_defs =
     [asset ''A'' [(''in'', ''G'')] [materialized_at 10],
      asset ''B'' [(''x'', ''A'')] [materialized_at 5],
      asset ''C'' [(''x'', ''B'')] [materialized_at 20],
      asset ''N'' [(''x'', ''C'')] []]"

definition chain_rank :: "string \<Rightarrow> nat" where
  "chain_rank k =
     (if k = key ''G'' then 0 else if k = key ''A'' then 1 else if k = key ''B'' then 2
      else if k = key ''C'' then 3 else 4)"

text \<open>A two-cycle between A and B, both materialized at time 1.\<close>

definition cycle_materialized :: "AssetDefinition list" where
  "cycle_materialized =
     [asset ''A'' [(''x'', ''B'')] [materialized_at 1],
      asset ''B'' [(''y'', ''A'')] [materialized_at 1]]"

text \<open>B declares two inputs, x and y, both fed by A.\<close>

definition two_inputs :: "AssetDefinition list" where
  "two_inputs = [asset ''A'' [] [], asset ''B'' [(''x'', ''A''), (''y'', ''A'')] []]"

text \<open>The graph of the chain with the keys of both objects in the opposite order.\<close>

definition chain_reordered :: GraphData where
  "chain_reordered =
     \<lparr>nodes = rev (nodes (buildGraphData chain_defs)),
      downstream = rev (downstream (buildGraphData chain_defs))\<rparr>"

section \<open>Node dimensions: results\<close>

text \<open>
  C9. For every asset definition, \<open>getNodeDimensions\<close> returns the width
  \<open>max(250, 9.5 * L) + 25\<close>, where \<open>L\<close> is the length of the path joined by \<open>>\<close>, and
  the height 40, plus 25 with a description (a non-empty string), plus 22 with at least
  one materialization, plus 22 more when the first materialization's \<open>runOrError\<close> is a
  \<open>PipelineRun\<close>. With no description and no materialization the height is 40.
\<close>

theorem getNodeDimensions_formula:
  "getNodeDimensions d =
     Inr \<lparr>width = max 250 (19 / 2 * of_nat (length (join ''>'' (path (assetKey d))))) + 25,
          height = 40 + (if truthy (description d) then 25 else 0)
                      + (case assetMaterializations d of
                           [] \<Rightarrow> 0
                         | m # _ \<Rightarrow> 22 + (case runOrError m of
                                            PipelineRun _ _ _ _ \<Rightarrow> 22
                                          | OtherRunResult _ \<Rightarrow> 0))\<rparr>"
  by (simp add: getNodeDimensions_def runForDisplay_def mult.commute
           split: list.split runOrError.split)

theorem getNodeDimensions_formula_witness:
  "getNodeDimensions (asset ''raw_events_from_the_warehouse'' [] []) =
     Inr \<lparr>width = 601 / 2, height = 40\<rparr> \<and>
   getNodeDimensions ((asset ''a'' [] [materialized_at 3])\<lparr>description := Some ''daily''\<rparr>) =
     Inr \<lparr>width = 275, height = 109\<rparr>"
  using getNodeDimensions_formula [of "asset ''raw_events_from_the_warehouse'' [] []"]
    getNodeDimensions_formula [of "(asset ''a'' [] [materialized_at 3])\<lparr>description := Some ''daily''\<rparr>"]
  by (simp add: asset_def materialized_at_def truthy_def)

text \<open>
  C10. \<open>getNodeDimensions\<close> returns a dimension pair for every asset definition:
  \<open>runForDisplay\<close> throws exactly on an empty materialization list, and it is only called
  when the list is not empty.
\<close>

theorem getNodeDimensions_total:
  "(\<exists>r. getNodeDimensions d = Inr r) \<and>
   (runForDisplay d = Inl TypeError \<longleftrightarrow> assetMaterializations d = [])"
  by (simp add: getNodeDimensions_def runForDisplay_def
           split: list.split runOrError.split)

section \<open>Evaluating the examples\<close>

lemmas eval_defs = buildGraphData_def add_definition_def add_dependency_def obj_set_def
  obj_get_def obj_keys_def obj_values_def asset_def JSON_stringify_def json_quote_def
  json_escape_def downstream_keys_def Let_def

lemma key_eq_iff: "key [c] = key [d] \<longleftrightarrow> json_escape c = json_escape d"
  by (simp add: key_def JSON_stringify_def json_quote_def)

lemma json_escape_letters:
  "json_escape CHR ''A'' = ''A''" "json_escape CHR ''B'' = ''B''"
  "json_escape CHR ''C'' = ''C''" "json_escape CHR ''D'' = ''D''"
  "json_escape CHR ''E'' = ''E''" "json_escape CHR ''F'' = ''F''"
  by (simp_all add: json_escape_def)

lemmas key_neq = key_eq_iff json_escape_letters

lemma acyclic_by_rank:
  fixes f :: "'a \<Rightarrow> nat"
  assumes "\<And>u d. (u, d) \<in> r \<Longrightarrow> f u < f d"
  shows "acyclic r"
proof -
  have "r \<subseteq> inv_image less_than f" using assms by auto
  then have "wf r" by (rule wf_subset [OF wf_inv_image [OF wf_less_than]])
  then show ?thesis by (rule wf_acyclic)
qed

lemma edges_code:
  "edges g =
     set (concat (map (\<lambda>u. map (Pair u) (downstream_keys g u)) (obj_keys (downstream g))))"
proof -
  have "downstream_keys g u = []" if "u \<notin> set (obj_keys (downstream g))" for u
  proof -
    have "map_of (downstream g) u = None"
      using that by (simp add: map_of_eq_None_iff obj_keys_def)
    then show ?thesis by (simp add: downstream_keys_def obj_keys_def obj_get_def)
  qed
  then have "d \<in> set (downstream_keys g u) \<Longrightarrow> u \<in> set (obj_keys (downstream g))" for u d
    by fastforce
  then show ?thesis by (auto simp: edges_def)
qed

section \<open>Cycle detection: results\<close>

text \<open>A loop of \<open>array_some\<close> returns when each call of its callback does, and keeps an invariant.\<close>

lemma array_some_inv:
  assumes "I s"
    and "\<And>x t. x \<in> set xs \<Longrightarrow> I t \<Longrightarrow> \<exists>b t'. f x t = Some (b, t') \<and> I t' \<and> (b \<longrightarrow> B)"
  shows "\<exists>b t'. array_some f xs s = Some (b, t') \<and> I t' \<and> (b \<longrightarrow> B)"
  using assms
proof (induction xs arbitrary: s)
  case Nil
  then show ?case by auto
next
  case (Cons x xs)
  from Cons.prems(2) [of x s] Cons.prems(1)
  obtain b t' where r: "f x s = Some (b, t')" "I t'" "b \<longrightarrow> B" by auto
  show ?case
  proof (cases b)
    case True
    with r show ?thesis by auto
  next
    case False
    have "\<exists>b t''. array_some f xs t' = Some (b, t'') \<and> I t'' \<and> (b \<longrightarrow> B)"
      by (rule Cons.IH [OF r(2)]) (use Cons.prems(2) in auto)
    with r False show ?thesis by auto
  qed
qed

text \<open>
  Every call of \<open>search\<close> returns: it only recurses after deleting a node from the set.
  On an acyclic graph, with a stack whose nodes all reach the current node, it returns false.
\<close>

lemma search_returns:
  "\<exists>b ns'. search g stack node ns = Some (b, ns') \<and> set ns' \<subseteq> set ns \<and> length ns' \<le> length ns
     \<and> (node \<notin> set stack \<longrightarrow> node \<notin> set ns')
     \<and> (node \<notin> set stack \<longrightarrow> node \<in> set ns \<longrightarrow> length ns' < length ns)
     \<and> (b \<longrightarrow> \<not> (acyclic (edges g) \<and> (\<forall>s \<in> set stack. (s, node) \<in> (edges g)\<^sup>+)))"
proof (induction "length ns" arbitrary: stack node ns rule: less_induct)
  case less
  let ?ok = "\<lambda>stack node. acyclic (edges g) \<and> (\<forall>s \<in> set stack. (s, node) \<in> (edges g)\<^sup>+)"
  show ?case
  proof (cases "node \<in> set stack")
    case True
    have "\<not> ?ok stack node" using True by (auto simp: acyclic_def)
    with True show ?thesis by (subst search.simps) auto
  next
    case notin: False
    show ?thesis
    proof (cases "node \<in> set ns")
      case False
      with notin show ?thesis by (subst search.simps) auto
    next
      case True
      let ?ns0 = "removeAll node ns"
      let ?I = "\<lambda>t. set t \<subseteq> set ?ns0 \<and> length t \<le> length ?ns0"
      have lt: "length ?ns0 < length ns"
        using True by (simp add: length_removeAll_less)
      have "\<exists>b t'. array_some (\<lambda>n t. search g (stack @ [node]) n t) (downstream_keys g node) ?ns0
                = Some (b, t') \<and> ?I t' \<and> (b \<longrightarrow> \<not> ?ok stack node)"
      proof (rule array_some_inv [where I = ?I])
        show "?I ?ns0" by simp
      next
        fix x t
        assume x: "x \<in> set (downstream_keys g node)" and t: "?I t"
        from t lt have "length t < length ns" by simp
        from less [OF this, of "stack @ [node]" x]
        obtain b t' where r: "search g (stack @ [node]) x t = Some (b, t')"
          "set t' \<subseteq> set t" "length t' \<le> length t"
          "b \<longrightarrow> \<not> ?ok (stack @ [node]) x" by blast
        have e: "(node, x) \<in> edges g" using x by (simp add: edges_def)
        have "?ok stack node \<Longrightarrow> ?ok (stack @ [node]) x"
          using e by (auto intro: trancl_into_trancl)
        with r t
        show "\<exists>b t'. search g (stack @ [node]) x t = Some (b, t') \<and> ?I t' \<and> (b \<longrightarrow> \<not> ?ok stack node)"
          by auto
      qed
      then obtain b t' where r:
        "array_some (\<lambda>n t. search g (stack @ [node]) n t) (downstream_keys g node) ?ns0 = Some (b, t')"
        "?I t'" "b \<longrightarrow> \<not> ?ok stack node" by blast
      have "search g stack node ns = Some (b, t')"
        using notin True r(1) by (subst search.simps) simp
      moreover have "set t' \<subseteq> set ns" "node \<notin> set t'" using r(2) by auto
      moreover have "length t' < length ns" using r(2) lt by simp
      ultimately show ?thesis using r(3) by auto
    qed
  qed
qed

lemma cycles_loop_acyclic:
  assumes "acyclic (edges g)"
  shows "cycles_loop g False ns = Some False"
proof (induction "length ns" arbitrary: ns rule: less_induct)
  case less
  show ?case
  proof (cases ns)
    case Nil
    then show ?thesis by (subst cycles_loop.simps) simp
  next
    case (Cons n rest)
    from search_returns [of g "[]" n ns] assms
    obtain ns' where r: "search g [] n ns = Some (False, ns')" "length ns' < length ns"
      using Cons by auto
    from less [OF r(2)] r(1) Cons show ?thesis
      by (subst cycles_loop.simps) simp
  qed
qed

text \<open>Once a cycle is found and nodes are left in the set, the loop makes no progress.\<close>

lemma cycles_loop_stuck:
  assumes "ns \<noteq> []"
  shows "cycles_loop g True ns = None"
proof -
  have "\<not> (h \<and> ms \<noteq> [])" if "cycles_loop g' h ms = Some y" for g' h ms y
    by (rule cycles_loop.raw_induct [where P = "\<lambda>g h ms y. \<not> (h \<and> ms \<noteq> [])", OF _ that])
       (auto split: if_splits option.splits)
  with assms show ?thesis by (cases "cycles_loop g True ns") auto
qed

lemma three_cycle_search:
  assumes "distinct [a, b, c]" "a \<in> set ns" "b \<in> set ns" "c \<in> set ns"
    "downstream_keys g a = [b]" "downstream_keys g b = [c]" "downstream_keys g c = [a]"
  shows "search g [] a ns = Some (True, removeAll c (removeAll b (removeAll a ns)))"
proof -
  have 3: "search g [a, b, c] a ms = Some (True, ms)" for ms
    by (subst search.simps) simp
  have 2: "search g [a, b] c ms = Some (True, removeAll c ms)" if "c \<in> set ms" for ms
    using assms that 3 by (subst search.simps) auto
  have 1: "search g [a] b ms = Some (True, removeAll c (removeAll b ms))"
    if "b \<in> set ms" "c \<in> set ms" for ms
    using assms that 2 [of "removeAll b ms"] by (subst search.simps) auto
  show ?thesis
    using assms 1 [of "removeAll a ns"] by (subst search.simps) auto
qed

lemma three_cycle:
  assumes "distinct [a, b, c]" "set (obj_keys (nodes g)) = {a, b, c}"
    "downstream_keys g a = [b]" "downstream_keys g b = [c]" "downstream_keys g c = [a]"
  shows "graphHasCycles g = Some True"
proof -
  let ?ns = "obj_keys (nodes g)"
  have ne: "?ns \<noteq> []" using assms(2) by auto
  have mem: "a \<in> set ?ns" "b \<in> set ?ns" "c \<in> set ?ns" using assms(2) by simp_all
  have e: "removeAll p (removeAll q (removeAll r ?ns)) = []" if "{a, b, c} \<subseteq> {p, q, r}" for p q r
  proof -
    have "set (removeAll p (removeAll q (removeAll r ?ns))) = {}"
      using that assms(2) by auto
    then show ?thesis by (simp only: set_empty)
  qed
  have d: "distinct [b, c, a]" "distinct [c, a, b]" using assms(1) by auto
  have "search g [] a ?ns = Some (True, [])"
    using three_cycle_search [OF assms(1) mem assms(3-5)] e [of c b a] by simp
  moreover have "search g [] b ?ns = Some (True, [])"
    using three_cycle_search [OF d(1) mem(2,3,1) assms(4,5,3)] e [of a c b] by simp
  moreover have "search g [] c ?ns = Some (True, [])"
    using three_cycle_search [OF d(2) mem(3,1,2) assms(5,3,4)] e [of b a c] by simp
  moreover have "hd ?ns \<in> {a, b, c}" using ne assms(2) hd_in_set by blast
  ultimately have s: "search g [] (hd ?ns) ?ns = Some (True, [])" by auto
  have "cycles_loop g True [] = Some True" by (subst cycles_loop.simps) simp
  with s ne show ?thesis
    unfolding graphHasCycles_def by (subst cycles_loop.simps) simp
qed

text \<open>The example graphs, evaluated.\<close>

lemma two_cycle_and_node_graph:
  "obj_keys (nodes (buildGraphData two_cycle_and_node)) = [key ''A'', key ''B'', key ''C'']"
  "downstream_keys (buildGraphData two_cycle_and_node) (key ''A'') = [key ''B'']"
  "downstream_keys (buildGraphData two_cycle_and_node) (key ''B'') = [key ''A'']"
  by (simp_all add: eval_defs two_cycle_and_node_def key_def)

lemma two_cycle_and_node_search:
  "search (buildGraphData two_cycle_and_node) [] (key ''A'') [key ''A'', key ''B'', key ''C'']
     = Some (True, [key ''C''])"
  by (simp add: search.simps two_cycle_and_node_graph key_neq)

lemma three_cycle_graph:
  "obj_keys (nodes (buildGraphData three_cycle_defs)) = [key ''A'', key ''B'', key ''C'']"
  "downstream_keys (buildGraphData three_cycle_defs) (key ''A'') = [key ''B'']"
  "downstream_keys (buildGraphData three_cycle_defs) (key ''B'') = [key ''C'']"
  "downstream_keys (buildGraphData three_cycle_defs) (key ''C'') = [key ''A'']"
  by (simp_all add: eval_defs three_cycle_defs_def key_def)

lemma diamond_edges:
  "edges (buildGraphData diamond_and_pair) =
     {(key ''A'', key ''B''), (key ''A'', key ''C''), (key ''B'', key ''D''),
      (key ''C'', key ''D''), (key ''E'', key ''F'')}"
  unfolding edges_code by (simp add: eval_defs diamond_and_pair_def key_def)

lemma diamond_acyclic: "acyclic (edges (buildGraphData diamond_and_pair))"
  unfolding diamond_edges
  by (rule acyclic_by_rank [where f = diamond_rank]) (auto simp: diamond_rank_def key_neq)

lemma small_acyclic:
  "acyclic (edges (buildGraphData []))" "acyclic (edges (buildGraphData [asset ''A'' [] []]))"
  unfolding edges_code by (simp_all add: eval_defs acyclic_def)

text \<open>
  C1. \<open>graphHasCycles\<close> does not return on the two-cycle A, B with the further node C: the
  search from A finds the cycle and leaves C in the set, and the loop never calls \<open>search\<close>
  again.
\<close>

theorem graphHasCycles_no_result:
  "graphHasCycles (buildGraphData two_cycle_and_node) = None"
  unfolding graphHasCycles_def two_cycle_and_node_graph
  by (subst cycles_loop.simps) (simp add: two_cycle_and_node_search cycles_loop_stuck)

text \<open>
  C5. \<open>graphHasCycles\<close> returns true on a graph that is the directed cycle a, b, c, a, and
  false on every acyclic graph. \<open>search\<close> reports a cycle when the node is on the current
  stack; a node that is not on the stack and was deleted from the set before is not one.
\<close>

theorem graphHasCycles_three_cycle_and_dag:
  "(distinct [a, b, c] \<and> set (obj_keys (nodes g)) = {a, b, c} \<and> downstream_keys g a = [b]
      \<and> downstream_keys g b = [c] \<and> downstream_keys g c = [a]
      \<longrightarrow> graphHasCycles g = Some True)
   \<and> (acyclic (edges h) \<longrightarrow> graphHasCycles h = Some False)
   \<and> (node \<in> set stack \<longrightarrow> search h stack node ns = Some (True, ns))
   \<and> (node \<notin> set stack \<longrightarrow> node \<notin> set ns \<longrightarrow> search h stack node ns = Some (False, ns))"
proof (intro conjI impI)
  assume "distinct [a, b, c] \<and> set (obj_keys (nodes g)) = {a, b, c} \<and> downstream_keys g a = [b]
      \<and> downstream_keys g b = [c] \<and> downstream_keys g c = [a]"
  then show "graphHasCycles g = Some True" using three_cycle [of a b c g] by simp
next
  assume "acyclic (edges h)"
  then show "graphHasCycles h = Some False"
    unfolding graphHasCycles_def by (rule cycles_loop_acyclic)
next
  assume "node \<in> set stack"
  then show "search h stack node ns = Some (True, ns)" by (subst search.simps) simp
next
  assume "node \<notin> set stack" "node \<notin> set ns"
  then show "search h stack node ns = Some (False, ns)" by (subst search.simps) simp
qed

theorem graphHasCycles_three_cycle_and_dag_witness:
  "graphHasCycles (buildGraphData three_cycle_defs) = Some True
   \<and> graphHasCycles (buildGraphData []) = Some False
   \<and> graphHasCycles (buildGraphData [asset ''A'' [] []]) = Some False
   \<and> graphHasCycles (buildGraphData diamond_and_pair) = Some False
   \<and> search (buildGraphData three_cycle_defs) [key ''A'', key ''B''] (key ''A'') [key ''C'']
        = Some (True, [key ''C''])
   \<and> search (buildGraphData diamond_and_pair) [key ''A'', key ''C''] (key ''D'') [key ''E'']
        = Some (False, [key ''E''])"
  using graphHasCycles_three_cycle_and_dag
          [of "key ''A''" "key ''B''" "key ''C''" "buildGraphData three_cycle_defs"
              "buildGraphData []" "key ''A''" "[]" "[]"]
        graphHasCycles_three_cycle_and_dag
          [of "key ''A''" "key ''B''" "key ''C''" "buildGraphData three_cycle_defs"
              "buildGraphData [asset ''A'' [] []]" "key ''A''" "[]" "[]"]
        graphHasCycles_three_cycle_and_dag
          [of "key ''A''" "key ''B''" "key ''C''" "buildGraphData three_cycle_defs"
              "buildGraphData three_cycle_defs" "key ''A''" "[key ''A'', key ''B'']" "[key ''C'']"]
        graphHasCycles_three_cycle_and_dag
          [of "key ''A''" "key ''B''" "key ''C''" "buildGraphData three_cycle_defs"
              "buildGraphData diamond_and_pair" "key ''D''" "[key ''A'', key ''C'']" "[key ''E'']"]
        three_cycle_graph diamond_acyclic small_acyclic
  by (simp add: key_neq)

section \<open>Building the graph: results\<close>

lemma obj_get_set: "obj_get (obj_set ob k v) = (obj_get ob)(k \<mapsto> v)"
  by (rule ext) (simp add: obj_get_def obj_set_def update_conv')

lemma obj_values_set: "set (obj_values (obj_set ob k v)) \<subseteq> insert v (set (obj_values ob))"
  unfolding obj_values_def obj_set_def by (induction ob) auto

lemma lookup_edge_add_dependency:
  "lookup_edge (add_dependency k ds dep) u d =
     (if u = JSON_stringify (path (upstreamAsset_assetKey dep)) \<and> d = k then Some (inputName dep)
      else lookup_edge ds u d)"
  by (auto simp: lookup_edge_def add_dependency_def Let_def obj_get_set obj_get_def split: option.splits)

lemma well_keyed_add_dependency:
  assumes "well_keyed ds"
  shows "well_keyed (add_dependency k ds dep)"
proof -
  let ?u = "JSON_stringify (path (upstreamAsset_assetKey dep))"
  let ?old = "case obj_get ds ?u of None \<Rightarrow> [] | Some d \<Rightarrow> d"
  have "distinct (obj_keys ?old)"
    using assms by (auto simp: well_keyed_def obj_get_def obj_values_def obj_keys_def
        split: option.splits dest!: map_of_SomeD)
  then have "distinct (obj_keys (obj_set ?old k (inputName dep)))"
    by (simp add: obj_keys_def obj_set_def distinct_update)
  moreover have "distinct (obj_keys (obj_set ds ?u v))" for v :: "string obj"
    using assms by (simp add: well_keyed_def obj_keys_def obj_set_def distinct_update)
  ultimately show ?thesis
    using assms obj_values_set [of ds ?u "obj_set ?old k (inputName dep)"]
    unfolding well_keyed_def add_dependency_def Let_def by auto
qed

lemma fold_deps:
  "lookup_edge (foldl (add_dependency k) ds deps) u d =
     (case map_of (rev (map (\<lambda>dep. ((JSON_stringify (path (upstreamAsset_assetKey dep)), k), inputName dep)) deps)) (u, d) of
        Some i \<Rightarrow> Some i | None \<Rightarrow> lookup_edge ds u d)"
  by (induction deps rule: rev_induct) (auto simp: lookup_edge_add_dependency)

lemma fold_deps_wk: "well_keyed ds \<Longrightarrow> well_keyed (foldl (add_dependency k) ds deps)"
  by (induction deps rule: rev_induct) (auto simp: well_keyed_add_dependency)

lemma downstream_add_definition:
  "downstream (add_definition g d) =
     foldl (add_dependency (JSON_stringify (path (assetKey d)))) (downstream g) (dependencies d)"
  by (simp add: add_definition_def Let_def)

lemma fold_defs:
  "lookup_edge (downstream (foldl add_definition g defs)) u d =
     (case map_of (rev (declared_edges defs)) (u, d) of
        Some i \<Rightarrow> Some i | None \<Rightarrow> lookup_edge (downstream g) u d)"
  by (induction defs rule: rev_induct)
     (auto simp: declared_edges_def downstream_add_definition fold_deps map_add_def split: option.splits)

lemma fold_defs_wk:
  "well_keyed (downstream g) \<Longrightarrow> well_keyed (downstream (foldl add_definition g defs))"
  by (induction defs rule: rev_induct) (auto simp: downstream_add_definition fold_deps_wk)

lemma buildGraphData_lookup_edge:
  "lookup_edge (downstream (buildGraphData defs)) u d = map_of (rev (declared_edges defs)) (u, d)
   \<and> well_keyed (downstream (buildGraphData defs))"
proof -
  have "well_keyed (downstream \<lparr>nodes = [], downstream = []\<rparr>)"
    by (simp add: well_keyed_def obj_keys_def obj_values_def)
  moreover have "lookup_edge (downstream \<lparr>nodes = [], downstream = []\<rparr>) u d = None"
    by (simp add: lookup_edge_def obj_get_def)
  ultimately show ?thesis
    unfolding buildGraphData_def by (simp add: fold_defs fold_defs_wk split: option.splits)
qed

lemma update_member:
  "(k', v') \<in> set (AList.update k v al) \<Longrightarrow> (k', v') = (k, v) \<or> (k', v') \<in> set al"
  by (induction al) (auto split: if_splits)

lemma nodes_add_definition:
  "nodes (add_definition g d) =
     obj_set (nodes g) (JSON_stringify (path (assetKey d)))
       \<lparr>node_id = JSON_stringify (path (assetKey d)), node_assetKey = assetKey d,
        node_definition = d\<rparr>"
  by (simp add: add_definition_def Let_def)

lemma nodes_fold:
  assumes "distinct (obj_keys (nodes g))"
    "\<forall>(k, n) \<in> set (nodes g). node_id n = k \<and> JSON_stringify (path (node_assetKey n)) = k"
  shows "distinct (obj_keys (nodes (foldl add_definition g defs))) \<and>
     (\<forall>(k, n) \<in> set (nodes (foldl add_definition g defs)).
        node_id n = k \<and> JSON_stringify (path (node_assetKey n)) = k) \<and>
     set (obj_keys (nodes (foldl add_definition g defs))) =
       set (obj_keys (nodes g)) \<union> (\<lambda>d. JSON_stringify (path (assetKey d))) ` set defs"
  using assms
proof (induction defs arbitrary: g)
  case Nil
  then show ?case by simp
next
  case (Cons d defs)
  let ?g = "add_definition g d"
  have 1: "distinct (obj_keys (nodes ?g))"
    using Cons.prems(1) by (simp add: nodes_add_definition obj_keys_def obj_set_def distinct_update)
  have 2: "\<forall>(k, n) \<in> set (nodes ?g). node_id n = k \<and> JSON_stringify (path (node_assetKey n)) = k"
    using Cons.prems(2) by (auto simp: nodes_add_definition obj_set_def dest!: update_member)
  have 3: "set (obj_keys (nodes ?g)) = insert (JSON_stringify (path (assetKey d))) (set (obj_keys (nodes g)))"
    by (simp add: nodes_add_definition obj_keys_def obj_set_def dom_update)
  from Cons.IH [OF 1 2] 3 show ?case by auto
qed

lemma buildGraphData_wf: "wf_graph (buildGraphData defs)"
  using nodes_fold [of "\<lparr>nodes = [], downstream = []\<rparr>" defs]
  unfolding wf_graph_def buildGraphData_def by (simp add: obj_keys_def)

lemma buildGraphData_keys:
  "set (obj_keys (nodes (buildGraphData defs))) = (\<lambda>d. JSON_stringify (path (assetKey d))) ` set defs"
  using nodes_fold [of "\<lparr>nodes = [], downstream = []\<rparr>" defs]
  unfolding buildGraphData_def by (simp add: obj_keys_def)

lemma edges_lookup_edge: "(u, d) \<in> edges g \<longleftrightarrow> lookup_edge (downstream g) u d \<noteq> None"
proof (cases "map_of (downstream g) u")
  case None
  then show ?thesis
    by (simp add: edges_def downstream_keys_def lookup_edge_def obj_keys_def obj_get_def)
next
  case (Some dm)
  have "d \<in> fst ` set dm \<longleftrightarrow> map_of dm d \<noteq> None"
    by (simp add: map_of_eq_None_iff)
  with Some show ?thesis
    by (simp add: edges_def downstream_keys_def lookup_edge_def obj_keys_def obj_get_def)
qed

lemma buildGraphData_edge_target:
  assumes "(u, d) \<in> edges (buildGraphData defs)"
  shows "d \<in> set (obj_keys (nodes (buildGraphData defs)))"
proof -
  from assms obtain i where "map_of (rev (declared_edges defs)) (u, d) = Some i"
    using buildGraphData_lookup_edge [of defs u d] by (auto simp: edges_lookup_edge)
  then have "((u, d), i) \<in> set (declared_edges defs)"
    by (auto dest: map_of_SomeD)
  then show ?thesis
    unfolding buildGraphData_keys declared_edges_def by auto
qed

lemma two_inputs_downstream:
  "downstream (buildGraphData two_inputs) = [(key ''A'', [(key ''B'', ''y'')])]"
  by (simp add: eval_defs two_inputs_def key_def)

text \<open>
  C4, as the specification states it, fails: with two dependency records from A into B under the
  input names x and y, the adjacency of A keeps the single entry of B, with the input
  name y.
\<close>

theorem buildGraphData_drops_input_name:
  "downstream (buildGraphData two_inputs) = [(key ''A'', [(key ''B'', ''y'')])]
   \<and> lookup_edge (downstream (buildGraphData two_inputs)) (key ''A'') (key ''B'') \<noteq> Some ''x''"
  by (simp add: two_inputs_downstream lookup_edge_def obj_get_def)

text \<open>
  C4, amended. The adjacency built by \<open>buildGraphData\<close> keeps one entry per pair of
  upstream and downstream id: the input name of the last dependency record that declares
  the pair, whatever the input names of the earlier ones; no key occurs twice.
\<close>

theorem buildGraphData_last_edge_wins:
  "lookup_edge (downstream (buildGraphData defs)) u d = map_of (rev (declared_edges defs)) (u, d)
   \<and> well_keyed (downstream (buildGraphData defs))"
  by (rule buildGraphData_lookup_edge)

theorem buildGraphData_last_edge_wins_witness:
  "lookup_edge (downstream (buildGraphData two_inputs)) (key ''A'') (key ''B'') = Some ''y''
   \<and> well_keyed (downstream (buildGraphData two_inputs))"
  using buildGraphData_last_edge_wins [of two_inputs "key ''A''" "key ''B''"]
  by (simp add: declared_edges_def two_inputs_def asset_def key_def)

section \<open>Compute statuses: results\<close>

lemma rule_ok_mono:
  assumes "rule_ok T U m d s" "m \<subseteq>\<^sub>m m'"
  shows "rule_ok T U m' d s"
proof -
  have "m' u = Some x" if "m u = Some x" for u x
    using assms(2) that by (metis domI map_le_def)
  with assms(1) show ?thesis unfolding rule_ok_def by (auto split: if_splits) 
qed

lemma memo_ok_update:
  assumes "memo_ok T U Z m" "m d = None" "rule_ok T U (m(d \<mapsto> s)) d s"
  shows "memo_ok T U Z (m(d \<mapsto> s))"
proof -
  have le: "m \<subseteq>\<^sub>m m(d \<mapsto> s)" using assms(2) by (auto simp: map_le_def)
  have "d \<notin> Z" using assms(1,2) by (auto simp: memo_ok_def)
  with assms(1,3) rule_ok_mono [OF _ le] show ?thesis
    unfolding memo_ok_def by auto
qed

lemma findComputeStatusForId_memo:
  "obj_get m d = Some st \<Longrightarrow> findComputeStatusForId T m U d = Some (st, m)"
  by (subst findComputeStatusForId.simps) simp

lemma findComputeStatusForId_old:
  "obj_get m d = None \<Longrightarrow> newer_upstream T U d \<Longrightarrow>
     findComputeStatusForId T m U d = Some (old, obj_set m d old)"
  by (subst findComputeStatusForId.simps) (simp add: newer_upstream_def upstream_ids_def)

lemma findComputeStatusForId_rec:
  "obj_get m d = None \<Longrightarrow> \<not> newer_upstream T U d \<Longrightarrow>
     findComputeStatusForId T m U d =
       Option.bind
         (array_some
            (\<lambda>uid sts. Option.bind (findComputeStatusForId T sts U uid)
                          (\<lambda>(st, sts'). Some (st \<noteq> good, sts')))
            (upstream_ids U d) m)
         (\<lambda>(b, m'). Some (if b then downstream_from_old else good,
                           obj_set m' d (if b then downstream_from_old else good)))"
  by (subst findComputeStatusForId.simps) (simp add: newer_upstream_def upstream_ids_def Let_def)

lemma findComputeStatusForId_correct:
  assumes wfR: "wf (upstream_rel U)"
  shows "memo_ok T U Z (obj_get m) \<Longrightarrow>
     \<exists>s m'. findComputeStatusForId T m U d = Some (s, m') \<and> memo_ok T U Z (obj_get m')
        \<and> obj_get m \<subseteq>\<^sub>m obj_get m' \<and> obj_get m' d = Some s
        \<and> dom (obj_get m') \<subseteq> dom (obj_get m) \<union> {a. (a, d) \<in> (upstream_rel U)\<^sup>*}"
  using wfR
proof (induction d arbitrary: m rule: wf_induct_rule)
  case (less d)
  let ?R = "upstream_rel U"
  let ?post = "\<lambda>m d s m'. memo_ok T U Z (obj_get m')
        \<and> obj_get m \<subseteq>\<^sub>m obj_get m' \<and> obj_get m' d = Some s
        \<and> dom (obj_get m') \<subseteq> dom (obj_get m) \<union> {a. (a, d) \<in> ?R\<^sup>*}"
  show ?case
  proof (cases "obj_get m d")
    case (Some st)
    then show ?thesis
      using less.prems by (auto simp: findComputeStatusForId_memo)
  next
    case None
    show ?thesis
    proof (cases "newer_upstream T U d")
      case True
      have "rule_ok T U ((obj_get m)(d \<mapsto> old)) d old"
        using True by (simp add: rule_ok_def)
      from memo_ok_update [OF less.prems None this]
      have "?post m d old (obj_set m d old)"
        using None by (auto simp: obj_get_set map_le_def)
      then show ?thesis
        using findComputeStatusForId_old [OF None True] by blast
    next
      case False
      let ?f = "\<lambda>uid sts. Option.bind (findComputeStatusForId T sts U uid)
                          (\<lambda>(st, sts'). Some (st \<noteq> good, sts'))"
      let ?I = "\<lambda>m1. memo_ok T U Z (obj_get m1) \<and> obj_get m \<subseteq>\<^sub>m obj_get m1
          \<and> dom (obj_get m1) \<subseteq> dom (obj_get m) \<union> {a. \<exists>u. (u, d) \<in> ?R \<and> (a, u) \<in> ?R\<^sup>*}"
      have loop: "?I m1 \<Longrightarrow> set ys \<subseteq> set (upstream_ids U d) \<Longrightarrow>
          \<exists>b m2. array_some ?f ys m1 = Some (b, m2) \<and> ?I m2 \<and> obj_get m1 \<subseteq>\<^sub>m obj_get m2
            \<and> (if b then \<exists>u \<in> set ys. \<exists>s'. obj_get m2 u = Some s' \<and> s' \<noteq> good
                else \<forall>u \<in> set ys. obj_get m2 u = Some good)" for ys m1
      proof (induction ys arbitrary: m1)
        case Nil
        then show ?case by auto
      next
        case (Cons y ys)
        have yR: "(y, d) \<in> ?R" using Cons.prems(2) by (simp add: upstream_rel_def)
        from less.IH [OF yR, of m1] Cons.prems(1)
        obtain s m1' where r: "findComputeStatusForId T m1 U y = Some (s, m1')"
          "memo_ok T U Z (obj_get m1')" "obj_get m1 \<subseteq>\<^sub>m obj_get m1'" "obj_get m1' y = Some s"
          "dom (obj_get m1') \<subseteq> dom (obj_get m1) \<union> {a. (a, y) \<in> ?R\<^sup>*}" by blast
        have I1: "?I m1'"
          using r(2,3,5) Cons.prems(1) yR by (auto intro: map_le_trans)
        show ?case
        proof (cases "s = good")
          case False
          with r I1 show ?thesis by auto
        next
          case True
          from Cons.IH [OF I1] Cons.prems(2)
          obtain b m2 where r2: "array_some ?f ys m1' = Some (b, m2)" "?I m2"
            "obj_get m1' \<subseteq>\<^sub>m obj_get m2"
            "if b then \<exists>u \<in> set ys. \<exists>s'. obj_get m2 u = Some s' \<and> s' \<noteq> good
                else \<forall>u \<in> set ys. obj_get m2 u = Some good" by auto
          have "obj_get m2 y = Some good"
            using r(4) r2(3) True by (metis domI map_le_def)
          moreover have "obj_get m1 \<subseteq>\<^sub>m obj_get m2"
            using r(3) r2(3) by (rule map_le_trans)
          ultimately show ?thesis
            using r(1) r2 True by (auto split: if_splits)
        qed
      qed
      have "?I m" using less.prems by auto
      from loop [OF this subset_refl]
      obtain b m2 where r: "array_some ?f (upstream_ids U d) m = Some (b, m2)" "?I m2"
        "if b then \<exists>u \<in> set (upstream_ids U d). \<exists>s'. obj_get m2 u = Some s' \<and> s' \<noteq> good
                else \<forall>u \<in> set (upstream_ids U d). obj_get m2 u = Some good" by blast
      let ?st = "if b then downstream_from_old else good"
      have res: "findComputeStatusForId T m U d = Some (?st, obj_set m2 d ?st)"
        using findComputeStatusForId_rec [OF None False] r(1) by simp
      have fresh: "obj_get m2 d = None"
      proof (rule ccontr)
        assume "obj_get m2 d \<noteq> None"
        then have "d \<in> dom (obj_get m2)" by auto
        with r(2) None obtain u where "(u, d) \<in> ?R" "(d, u) \<in> ?R\<^sup>*" by auto
        then have dd: "(d, d) \<in> ?R\<^sup>+" by (simp add: rtrancl_into_trancl1)
        have "acyclic ?R" using wfR by (rule wf_acyclic)
        with dd show False by (simp add: acyclic_def)
      qed
      have ne: "u \<noteq> d" if "obj_get m2 u = Some x" for u x
        using fresh that by auto
      have "rule_ok T U ((obj_get m2)(d \<mapsto> ?st)) d ?st"
        using False r(3) ne unfolding rule_ok_def by (auto split: if_splits)
      from memo_ok_update [OF _ fresh this] r(2)
      have "memo_ok T U Z (obj_get (obj_set m2 d ?st))" by (simp add: obj_get_set)
      moreover have "obj_get m \<subseteq>\<^sub>m obj_get (obj_set m2 d ?st)"
      proof -
        have "obj_get m2 \<subseteq>\<^sub>m obj_get (obj_set m2 d ?st)"
          using fresh by (auto simp: obj_get_set map_le_def)
        with r(2) show ?thesis by (blast intro: map_le_trans)
      qed
      moreover have "dom (obj_get (obj_set m2 d ?st)) \<subseteq> dom (obj_get m) \<union> {a. (a, d) \<in> ?R\<^sup>*}"
        using r(2) by (auto simp: obj_get_set intro: rtrancl_into_rtrancl)
      ultimately show ?thesis
        using res by (auto simp: obj_get_set)
    qed
  qed
qed

lemma upstream_ids_push:
  "set (upstream_ids (push_upstream u up d') d) =
     (if d = d' then insert u (set (upstream_ids up d)) else set (upstream_ids up d))"
  by (auto simp: upstream_ids_def push_upstream_def obj_get_set split: option.splits)

lemma upstream_ids_push_all:
  "set (upstream_ids (foldl (push_upstream u) up ds) d) =
     set (upstream_ids up d) \<union> (if d \<in> set ds then {u} else {})"
  by (induction ds arbitrary: up) (auto simp: upstream_ids_push)

lemma upstream_ids_invert_aux:
  "set (upstream_ids (foldl (\<lambda>up u. foldl (push_upstream u) up (dk u)) up0 us) d) =
     set (upstream_ids up0 d) \<union> {u \<in> set us. d \<in> set (dk u)}"
  by (induction us arbitrary: up0) (auto simp: upstream_ids_push_all)

lemma downstream_keys_no_key:
  assumes "u \<notin> set (obj_keys (downstream g))"
  shows "downstream_keys g u = []"
proof -
  have "map_of (downstream g) u = None"
    using assms by (simp add: map_of_eq_None_iff obj_keys_def)
  then show ?thesis by (simp add: downstream_keys_def obj_keys_def obj_get_def)
qed

lemma upstream_ids_invert:
  "set (upstream_ids (invert_downstream g) d) = {u. (u, d) \<in> edges g}"
proof -
  have "set (upstream_ids [] d) = {}" by (simp add: upstream_ids_def obj_get_def)
  then show ?thesis
    unfolding invert_downstream_def upstream_ids_invert_aux edges_def
    using downstream_keys_no_key [of _ g] by fastforce
qed

lemma upstream_rel_invert: "upstream_rel (invert_downstream g) = edges g"
  by (auto simp: upstream_rel_def upstream_ids_invert)

lemma finite_edges: "finite (edges g)"
  unfolding edges_code by simp

lemma wf_upstream_rel:
  assumes "acyclic (edges g)"
  shows "wf (upstream_rel (invert_downstream g))"
  unfolding upstream_rel_invert using finite_edges assms by (rule finite_acyclic_wf)

lemma collect_aux:
  assumes "distinct (map fst al)" "\<forall>(k, n) \<in> set al. node_id n = k"
  shows "obj_get (foldl (\<lambda>t n. obj_set t (node_id n) (f n)) t0 (map snd al)) k =
     (case map_of al k of Some n \<Rightarrow> Some (f n) | None \<Rightarrow> obj_get t0 k)"
  using assms
proof (induction al arbitrary: t0)
  case Nil
  then show ?case by simp
next
  case (Cons x al)
  obtain k' n' where x: "x = (k', n')" by (cases x)
  have "map_of al k' = None" using Cons.prems(1) x by (simp add: map_of_eq_None_iff)
  with Cons x show ?case by (auto simp: obj_get_set split: option.splits)
qed

lemma collect_timestamps_get:
  assumes "wf_graph g"
  shows "obj_get (collect_timestamps g) k = node_timestamp g k"
proof -
  have d: "distinct (map fst (nodes g))" using assms by (simp add: wf_graph_def obj_keys_def)
  have h: "\<forall>(k, n) \<in> set (nodes g). node_id n = k" using assms by (auto simp: wf_graph_def)
  show ?thesis
    unfolding collect_timestamps_def node_timestamp_def obj_values_def collect_aux [OF d h]
    by (simp add: obj_get_def split: option.splits)
qed

lemma mark_aux:
  assumes "distinct (map fst al)" "\<forall>(k, n) \<in> set al. node_id n = k"
  shows "obj_get (foldl (\<lambda>s n. if c n then obj_set s (node_id n) v else s) s0 (map snd al)) k =
     (case map_of al k of Some n \<Rightarrow> if c n then Some v else obj_get s0 k | None \<Rightarrow> obj_get s0 k)"
  using assms
proof (induction al arbitrary: s0)
  case Nil
  then show ?case by simp
next
  case (Cons x al)
  obtain k' n' where x: "x = (k', n')" by (cases x)
  have "map_of al k' = None" using Cons.prems(1) x by (simp add: map_of_eq_None_iff)
  with Cons x show ?case by (auto simp: obj_get_set split: option.splits)
qed

lemma mark_none_get:
  assumes "wf_graph g"
  shows "obj_get (mark_none g) k =
     (case obj_get (nodes g) k of
        Some n \<Rightarrow> if assetMaterializations (node_definition n) = [] then Some none else None
      | None \<Rightarrow> None)"
proof -
  have d: "distinct (map fst (nodes g))" using assms by (simp add: wf_graph_def obj_keys_def)
  have h: "\<forall>(k, n) \<in> set (nodes g). node_id n = k" using assms by (auto simp: wf_graph_def)
  show ?thesis
    unfolding mark_none_def obj_values_def mark_aux [OF d h]
    by (simp add: obj_get_def split: option.splits)
qed

lemma mark_none_values:
  "obj_get (foldl (\<lambda>s n. if c n then obj_set s (node_id n) none else s) s0 ns) k = Some x
     \<Longrightarrow> x = none \<or> obj_get s0 k = Some x"
proof (induction ns arbitrary: s0)
  case Nil
  then show ?case by simp
next
  case (Cons a ns)
  show ?case
  proof (cases "c a")
    case True
    with Cons.prems have "obj_get (foldl (\<lambda>s n. if c n then obj_set s (node_id n) none else s)
        (obj_set s0 (node_id a) none) ns) k = Some x" by simp
    from Cons.IH [OF this] show ?thesis by (auto simp: obj_get_set split: if_splits)
  next
    case False
    with Cons show ?thesis by simp
  qed
qed

lemma memo_ok_mark_none:
  "memo_ok T U (dom (obj_get (mark_none g))) (obj_get (mark_none g))"
  using mark_none_values [of _ "[]" "obj_values (nodes g)"]
  unfolding memo_ok_def mark_none_def by (fastforce simp: obj_get_def)

lemma status_loop_correct:
  assumes "wf (upstream_rel U)" "memo_ok T U Z (obj_get m)"
  shows "\<exists>m'. status_loop T U ns m = Some m' \<and> memo_ok T U Z (obj_get m')
     \<and> obj_get m \<subseteq>\<^sub>m obj_get m'
     \<and> (\<forall>n \<in> set ns. JSON_stringify (path (node_assetKey n)) \<in> dom (obj_get m'))"
  using assms(2)
proof (induction ns arbitrary: m)
  case Nil
  then show ?case by simp
next
  case (Cons a ns)
  let ?k = "JSON_stringify (path (node_assetKey a))"
  from findComputeStatusForId_correct [OF assms(1) Cons.prems, of ?k]
  obtain s m1 where r: "findComputeStatusForId T m U ?k = Some (s, m1)"
    "memo_ok T U Z (obj_get m1)" "obj_get m \<subseteq>\<^sub>m obj_get m1" "obj_get m1 ?k = Some s" by blast
  have same: "obj_get (obj_set m1 ?k s) = obj_get m1"
    using r(4) by (auto simp: obj_get_set)
  from Cons.IH [of "obj_set m1 ?k s"] r(2) same
  obtain m' where r2: "status_loop T U ns (obj_set m1 ?k s) = Some m'" "memo_ok T U Z (obj_get m')"
    "obj_get m1 \<subseteq>\<^sub>m obj_get m'"
    "\<forall>n \<in> set ns. JSON_stringify (path (node_assetKey n)) \<in> dom (obj_get m')" by auto
  have "?k \<in> dom (obj_get m')" using r(4) r2(3) by (metis domI map_le_def)
  moreover have "obj_get m \<subseteq>\<^sub>m obj_get m'" using r(3) r2(3) by (rule map_le_trans)
  ultimately show ?case using r(1) r2 by (simp add: Let_def)
qed

lemma buildGraphComputeStatuses_correct:
  assumes "acyclic (edges g)"
  shows "\<exists>m. buildGraphComputeStatuses g = Some m
     \<and> memo_ok (collect_timestamps g) (invert_downstream g) (dom (obj_get (mark_none g))) (obj_get m)
     \<and> obj_get (mark_none g) \<subseteq>\<^sub>m obj_get m
     \<and> (\<forall>n \<in> set (obj_values (nodes g)). JSON_stringify (path (node_assetKey n)) \<in> dom (obj_get m))"
  unfolding buildGraphComputeStatuses_def
  by (rule status_loop_correct [OF wf_upstream_rel [OF assms] memo_ok_mark_none])

lemma newer_upstream_graph:
  assumes "wf_graph g"
  shows "newer_upstream (collect_timestamps g) (invert_downstream g) k \<longleftrightarrow>
     (\<exists>u. (u, k) \<in> edges g \<and> js_gt (node_timestamp g u) (node_timestamp g k))"
  unfolding newer_upstream_def list_ex_iff collect_timestamps_get [OF assms] upstream_ids_invert
  by auto

lemma findComputeStatusForId_returns:
  assumes "wf (upstream_rel U)"
  shows "\<exists>r. findComputeStatusForId T m U d = Some r"
  using assms
proof (induction d arbitrary: m rule: wf_induct_rule)
  case (less d)
  show ?case
  proof (cases "obj_get m d")
    case (Some st)
    then show ?thesis by (simp add: findComputeStatusForId_memo)
  next
    case None
    show ?thesis
    proof (cases "newer_upstream T U d")
      case True
      with None show ?thesis by (simp add: findComputeStatusForId_old)
    next
      case False
      let ?f = "\<lambda>uid sts. Option.bind (findComputeStatusForId T sts U uid)
                          (\<lambda>(st, sts'). Some (st \<noteq> good, sts'))"
      have "\<exists>b t'. array_some ?f (upstream_ids U d) m = Some (b, t') \<and> True \<and> (b \<longrightarrow> True)"
      proof (rule array_some_inv [where I = "\<lambda>_. True"])
        fix x t
        assume "x \<in> set (upstream_ids U d)"
        then have "(x, d) \<in> upstream_rel U" by (simp add: upstream_rel_def)
        from less [OF this, of t] obtain s t' where "findComputeStatusForId T t U x = Some (s, t')"
          by auto
        then show "\<exists>b t'. ?f x t = Some (b, t') \<and> True \<and> (b \<longrightarrow> True)" by simp
      qed simp
      then show ?thesis
        using findComputeStatusForId_rec [OF None False] by auto
    qed
  qed
qed

text \<open>The chain example, evaluated.\<close>

lemma json_escape_more:
  "json_escape CHR ''G'' = ''G''" "json_escape CHR ''N'' = ''N''"
  by (simp_all add: json_escape_def)

lemma chain_downstream:
  "downstream (buildGraphData chain_defs) =
     [(key ''G'', [(key ''A'', ''in'')]), (key ''A'', [(key ''B'', ''x'')]),
      (key ''B'', [(key ''C'', ''x'')]), (key ''C'', [(key ''N'', ''x'')])]"
  by (simp add: eval_defs chain_defs_def key_def)

lemma chain_nodes:
  "nodes (buildGraphData chain_defs) =
     [(key ''A'', \<lparr>node_id = key ''A'', node_assetKey = \<lparr>path = [''A'']\<rparr>,
                   node_definition = asset ''A'' [(''in'', ''G'')] [materialized_at 10]\<rparr>),
      (key ''B'', \<lparr>node_id = key ''B'', node_assetKey = \<lparr>path = [''B'']\<rparr>,
                   node_definition = asset ''B'' [(''x'', ''A'')] [materialized_at 5]\<rparr>),
      (key ''C'', \<lparr>node_id = key ''C'', node_assetKey = \<lparr>path = [''C'']\<rparr>,
                   node_definition = asset ''C'' [(''x'', ''B'')] [materialized_at 20]\<rparr>),
      (key ''N'', \<lparr>node_id = key ''N'', node_assetKey = \<lparr>path = [''N'']\<rparr>,
                   node_definition = asset ''N'' [(''x'', ''C'')] []\<rparr>)]"
  by (simp add: eval_defs chain_defs_def key_def)

lemmas chain_keys = key_eq_iff json_escape_letters json_escape_more

lemma chain_timestamps:
  "collect_timestamps (buildGraphData chain_defs) =
     [(key ''A'', 10), (key ''B'', 5), (key ''C'', 20), (key ''N'', 0)]"
  unfolding collect_timestamps_def chain_nodes
  by (simp add: obj_values_def obj_set_def timestamp_of_def asset_def materialized_at_def chain_keys)

lemma chain_upstream:
  "invert_downstream (buildGraphData chain_defs) =
     [(key ''A'', [key ''G'']), (key ''B'', [key ''A'']), (key ''C'', [key ''B'']),
      (key ''N'', [key ''C''])]"
  unfolding invert_downstream_def downstream_keys_def chain_downstream
  by (simp add: obj_keys_def obj_get_def obj_set_def push_upstream_def chain_keys)

lemma chain_mark:
  "mark_none (buildGraphData chain_defs) = [(key ''N'', none)]"
  unfolding mark_none_def chain_nodes
  by (simp add: obj_values_def obj_set_def asset_def)

lemmas find_eval = findComputeStatusForId_memo findComputeStatusForId_old findComputeStatusForId_rec
  newer_upstream_def upstream_ids_def js_gt_def

lemma chain_statuses:
  "buildGraphComputeStatuses (buildGraphData chain_defs) =
     Some [(key ''N'', none), (key ''G'', good), (key ''A'', good), (key ''B'', old),
           (key ''C'', downstream_from_old)]"
  unfolding buildGraphComputeStatuses_def chain_timestamps chain_upstream chain_mark
  unfolding chain_nodes
  by (simp add: obj_values_def key_def [symmetric] find_eval obj_get_def obj_set_def chain_keys)

lemma chain_edges:
  "edges (buildGraphData chain_defs) =
     {(key ''G'', key ''A''), (key ''A'', key ''B''), (key ''B'', key ''C''), (key ''C'', key ''N'')}"
  unfolding edges_code downstream_keys_def chain_downstream
  by (simp add: obj_keys_def obj_get_def chain_keys)

lemma chain_acyclic: "acyclic (edges (buildGraphData chain_defs))"
  unfolding chain_edges
  by (rule acyclic_by_rank [where f = chain_rank]) (auto simp: chain_rank_def chain_keys)

lemma chain_node:
  "obj_get (nodes (buildGraphData chain_defs)) (key ''A'') =
     Some \<lparr>node_id = key ''A'', node_assetKey = \<lparr>path = [''A'']\<rparr>,
           node_definition = asset ''A'' [(''in'', ''G'')] [materialized_at 10]\<rparr>"
  "obj_get (nodes (buildGraphData chain_defs)) (key ''C'') =
     Some \<lparr>node_id = key ''C'', node_assetKey = \<lparr>path = [''C'']\<rparr>,
           node_definition = asset ''C'' [(''x'', ''B'')] [materialized_at 20]\<rparr>"
  "obj_get (nodes (buildGraphData chain_defs)) (key ''N'') =
     Some \<lparr>node_id = key ''N'', node_assetKey = \<lparr>path = [''N'']\<rparr>,
           node_definition = asset ''N'' [(''x'', ''C'')] []\<rparr>"
  unfolding chain_nodes by (simp_all add: obj_get_def chain_keys)

text \<open>
  C6. On a well-formed acyclic graph, \<open>buildGraphComputeStatuses\<close> returns a status map
  in which every node with an empty materialization list has the status none, whatever
  its upstream and downstream edges.
\<close>

theorem unmaterialized_is_none:
  assumes "wf_graph g" "acyclic (edges g)" "obj_get (nodes g) k = Some n"
    "assetMaterializations (node_definition n) = []"
  shows "\<exists>m. buildGraphComputeStatuses g = Some m \<and> obj_get m k = Some none"
proof -
  from buildGraphComputeStatuses_correct [OF assms(2)]
  obtain m where m: "buildGraphComputeStatuses g = Some m" "obj_get (mark_none g) \<subseteq>\<^sub>m obj_get m"
    by blast
  have "obj_get (mark_none g) k = Some none"
    using assms(3,4) by (simp add: mark_none_get [OF assms(1)])
  with m show ?thesis by (metis domI map_le_def)
qed

theorem unmaterialized_is_none_witness:
  "\<exists>m. buildGraphComputeStatuses (buildGraphData chain_defs) = Some m
       \<and> obj_get m (key ''N'') = Some none"
  by (rule unmaterialized_is_none [OF buildGraphData_wf chain_acyclic chain_node(3)])
     (simp add: asset_def)

text \<open>
  C2. On a well-formed acyclic graph, a node with at least one materialization gets the
  status old if some direct upstream id has a collected timestamp strictly greater than
  its own; otherwise downstream-from-old if some direct upstream id has a status other
  than good in the returned map; otherwise good.
\<close>

theorem materialized_status_rule:
  assumes "wf_graph g" "acyclic (edges g)" "obj_get (nodes g) k = Some n"
    "assetMaterializations (node_definition n) \<noteq> []"
  shows "\<exists>m. buildGraphComputeStatuses g = Some m \<and>
     obj_get m k = Some
       (if \<exists>u. (u, k) \<in> edges g \<and> js_gt (node_timestamp g u) (node_timestamp g k) then old
        else if \<exists>u s'. (u, k) \<in> edges g \<and> obj_get m u = Some s' \<and> s' \<noteq> good
        then downstream_from_old
        else good)"
proof -
  let ?T = "collect_timestamps g" and ?U = "invert_downstream g"
  from buildGraphComputeStatuses_correct [OF assms(2)]
  obtain m where m: "buildGraphComputeStatuses g = Some m"
    "memo_ok ?T ?U (dom (obj_get (mark_none g))) (obj_get m)"
    "\<forall>n \<in> set (obj_values (nodes g)). JSON_stringify (path (node_assetKey n)) \<in> dom (obj_get m)"
    by blast
  have kn: "(k, n) \<in> set (nodes g)" using assms(3) by (auto simp: obj_get_def dest: map_of_SomeD)
  then have "JSON_stringify (path (node_assetKey n)) = k" using assms(1) by (auto simp: wf_graph_def)
  moreover have "n \<in> set (obj_values (nodes g))" using kn by (force simp: obj_values_def)
  ultimately obtain s where s: "obj_get m k = Some s" using m(3) by auto
  have "k \<notin> dom (obj_get (mark_none g))"
    using assms(3,4) by (simp add: mark_none_get [OF assms(1)] domIff)
  with m(2) s have "rule_ok ?T ?U (obj_get m) k s" by (auto simp: memo_ok_def)
  then have "s = (if \<exists>u. (u, k) \<in> edges g \<and> js_gt (node_timestamp g u) (node_timestamp g k) then old
        else if \<exists>u s'. (u, k) \<in> edges g \<and> obj_get m u = Some s' \<and> s' \<noteq> good
        then downstream_from_old
        else good)"
    unfolding rule_ok_def newer_upstream_graph [OF assms(1)] upstream_ids_invert
    by (auto split: if_splits)
  with m(1) s show ?thesis by blast
qed

theorem materialized_status_rule_witness:
  "(\<exists>m. buildGraphComputeStatuses (buildGraphData chain_defs) = Some m \<and>
      obj_get m (key ''C'') = Some
        (if \<exists>u. (u, key ''C'') \<in> edges (buildGraphData chain_defs) \<and>
               js_gt (node_timestamp (buildGraphData chain_defs) u)
                 (node_timestamp (buildGraphData chain_defs) (key ''C'')) then old
         else if \<exists>u s'. (u, key ''C'') \<in> edges (buildGraphData chain_defs) \<and>
                   obj_get m u = Some s' \<and> s' \<noteq> good then downstream_from_old
         else good))
   \<and> buildGraphComputeStatuses (buildGraphData chain_defs) =
        Some [(key ''N'', none), (key ''G'', good), (key ''A'', good), (key ''B'', old),
              (key ''C'', downstream_from_old)]"
proof (rule conjI)
  show "\<exists>m. buildGraphComputeStatuses (buildGraphData chain_defs) = Some m \<and>
      obj_get m (key ''C'') = Some
        (if \<exists>u. (u, key ''C'') \<in> edges (buildGraphData chain_defs) \<and>
               js_gt (node_timestamp (buildGraphData chain_defs) u)
                 (node_timestamp (buildGraphData chain_defs) (key ''C'')) then old
         else if \<exists>u s'. (u, key ''C'') \<in> edges (buildGraphData chain_defs) \<and>
                   obj_get m u = Some s' \<and> s' \<noteq> good then downstream_from_old
         else good)"
    by (rule materialized_status_rule [OF buildGraphData_wf chain_acyclic chain_node(2)])
       (simp add: asset_def)
  show "buildGraphComputeStatuses (buildGraphData chain_defs) =
        Some [(key ''N'', none), (key ''G'', good), (key ''A'', good), (key ''B'', old),
              (key ''C'', downstream_from_old)]"
    by (rule chain_statuses)
qed

lemma node_timestamp_dangling:
  "u \<notin> set (obj_keys (nodes g)) \<Longrightarrow> node_timestamp g u = None"
  by (simp add: node_timestamp_def obj_get_def obj_keys_def map_of_eq_None_iff)

lemma dangling_status_good:
  assumes g: "g = buildGraphData defs"
    and memo: "memo_ok (collect_timestamps g) (invert_downstream g) (dom (obj_get (mark_none g))) m"
    and u: "u \<notin> set (obj_keys (nodes g))" "m u = Some s"
  shows "s = good"
proof -
  have wf: "wf_graph g" unfolding g by (rule buildGraphData_wf)
  have nk: "obj_get (nodes g) u = None"
    using u(1) by (simp add: obj_get_def obj_keys_def map_of_eq_None_iff)
  then have "u \<notin> dom (obj_get (mark_none g))"
    by (simp add: mark_none_get [OF wf] domIff)
  with memo u(2) have r: "rule_ok (collect_timestamps g) (invert_downstream g) m u s"
    by (auto simp: memo_ok_def)
  have "set (upstream_ids (invert_downstream g) u) = {}"
    unfolding upstream_ids_invert using buildGraphData_edge_target [of _ u defs] u(1) g by auto
  then have e: "upstream_ids (invert_downstream g) u = []" by simp
  from r show ?thesis
    unfolding rule_ok_def newer_upstream_def e by simp
qed

text \<open>
  C7. \<open>buildGraphData\<close> is a total function and builds a well-formed graph from every
  definition list: a dependency on an asset key that no definition declares only adds an
  upstream id that is not a node. On the graph it builds,
  when acyclic, the status of a materialized node is decided by its upstream ids that are
  nodes alone: an upstream id that is not a node never has a newer timestamp, and its
  status in the returned map, if it has one, is good.
\<close>

theorem dangling_upstream_ignored:
  assumes "acyclic (edges (buildGraphData defs))"
    "obj_get (nodes (buildGraphData defs)) k = Some n"
    "assetMaterializations (node_definition n) \<noteq> []"
  shows "wf_graph (buildGraphData defs) \<and>
    (\<exists>m. buildGraphComputeStatuses (buildGraphData defs) = Some m \<and>
     obj_get m k = Some
       (if \<exists>u \<in> set (obj_keys (nodes (buildGraphData defs))).
             (u, k) \<in> edges (buildGraphData defs) \<and>
             js_gt (node_timestamp (buildGraphData defs) u) (node_timestamp (buildGraphData defs) k)
        then old
        else if \<exists>u \<in> set (obj_keys (nodes (buildGraphData defs))). \<exists>s'.
                  (u, k) \<in> edges (buildGraphData defs) \<and> obj_get m u = Some s' \<and> s' \<noteq> good
        then downstream_from_old
        else good) \<and>
     (\<forall>u. u \<notin> set (obj_keys (nodes (buildGraphData defs))) \<longrightarrow>
          \<not> js_gt (node_timestamp (buildGraphData defs) u) (node_timestamp (buildGraphData defs) k)
          \<and> (obj_get m u = None \<or> obj_get m u = Some good)))"
proof -
  define g where "g = buildGraphData defs"
  let ?T = "collect_timestamps g" and ?U = "invert_downstream g"
  let ?N = "set (obj_keys (nodes g))"
  have wf: "wf_graph g" unfolding g_def by (rule buildGraphData_wf)
  have ac: "acyclic (edges g)" using assms(1) by (simp add: g_def)
  have node: "obj_get (nodes g) k = Some n" using assms(2) by (simp add: g_def)
  from buildGraphComputeStatuses_correct [OF ac]
  obtain m where m: "buildGraphComputeStatuses g = Some m"
    "memo_ok ?T ?U (dom (obj_get (mark_none g))) (obj_get m)"
    "\<forall>n \<in> set (obj_values (nodes g)). JSON_stringify (path (node_assetKey n)) \<in> dom (obj_get m)"
    by blast
  have dang: "obj_get m u = None \<or> obj_get m u = Some good" if "u \<notin> ?N" for u
    using dangling_status_good [OF g_def m(2) that] by (cases "obj_get m u") auto
  have nots: "\<not> js_gt (node_timestamp g u) x" if "u \<notin> ?N" for u x
    using node_timestamp_dangling [OF that] by (simp add: js_gt_def)
  have kn: "(k, n) \<in> set (nodes g)" using node by (auto simp: obj_get_def dest: map_of_SomeD)
  then have "JSON_stringify (path (node_assetKey n)) = k" using wf by (auto simp: wf_graph_def)
  moreover have "n \<in> set (obj_values (nodes g))" using kn by (force simp: obj_values_def)
  ultimately obtain s where s: "obj_get m k = Some s" using m(3) by auto
  have "k \<notin> dom (obj_get (mark_none g))"
    using node assms(3) by (simp add: mark_none_get [OF wf] domIff)
  with m(2) s have r: "rule_ok ?T ?U (obj_get m) k s" by (auto simp: memo_ok_def)
  have old_iff: "newer_upstream ?T ?U k \<longleftrightarrow>
      (\<exists>u \<in> ?N. (u, k) \<in> edges g \<and> js_gt (node_timestamp g u) (node_timestamp g k))"
    unfolding newer_upstream_graph [OF wf] using nots by blast
  have "s = (if \<exists>u \<in> ?N. (u, k) \<in> edges g \<and> js_gt (node_timestamp g u) (node_timestamp g k) then old
        else if \<exists>u \<in> ?N. \<exists>s'. (u, k) \<in> edges g \<and> obj_get m u = Some s' \<and> s' \<noteq> good
        then downstream_from_old
        else good)"
  proof (cases "newer_upstream ?T ?U k")
    case True
    with r old_iff show ?thesis by (simp add: rule_ok_def)
  next
    case False
    from r False consider
      (dfo) u s' where "s = downstream_from_old" "(u, k) \<in> edges g" "obj_get m u = Some s'" "s' \<noteq> good"
      | (good) "s = good" "\<forall>u. (u, k) \<in> edges g \<longrightarrow> obj_get m u = Some good"
      unfolding rule_ok_def upstream_ids_invert by auto
    then show ?thesis
    proof cases
      case dfo
      then have "u \<in> ?N" using dang [of u] by auto
      with dfo False old_iff show ?thesis by auto
    next
      case good
      with False old_iff show ?thesis by auto
    qed
  qed
  with m(1) s dang nots have "\<exists>m. buildGraphComputeStatuses g = Some m \<and>
     obj_get m k = Some
       (if \<exists>u \<in> ?N. (u, k) \<in> edges g \<and> js_gt (node_timestamp g u) (node_timestamp g k) then old
        else if \<exists>u \<in> ?N. \<exists>s'. (u, k) \<in> edges g \<and> obj_get m u = Some s' \<and> s' \<noteq> good
        then downstream_from_old
        else good) \<and>
     (\<forall>u. u \<notin> ?N \<longrightarrow>
          \<not> js_gt (node_timestamp g u) (node_timestamp g k)
          \<and> (obj_get m u = None \<or> obj_get m u = Some good))"
    by blast
  with wf show ?thesis unfolding g_def by simp
qed

theorem dangling_upstream_ignored_witness:
  "wf_graph (buildGraphData chain_defs) \<and>
   (\<exists>m. buildGraphComputeStatuses (buildGraphData chain_defs) = Some m \<and>
     obj_get m (key ''A'') = Some
       (if \<exists>u \<in> set (obj_keys (nodes (buildGraphData chain_defs))).
             (u, key ''A'') \<in> edges (buildGraphData chain_defs) \<and>
             js_gt (node_timestamp (buildGraphData chain_defs) u)
               (node_timestamp (buildGraphData chain_defs) (key ''A''))
        then old
        else if \<exists>u \<in> set (obj_keys (nodes (buildGraphData chain_defs))). \<exists>s'.
                  (u, key ''A'') \<in> edges (buildGraphData chain_defs) \<and>
                  obj_get m u = Some s' \<and> s' \<noteq> good
        then downstream_from_old
        else good) \<and>
     (\<forall>u. u \<notin> set (obj_keys (nodes (buildGraphData chain_defs))) \<longrightarrow>
          \<not> js_gt (node_timestamp (buildGraphData chain_defs) u)
               (node_timestamp (buildGraphData chain_defs) (key ''A''))
          \<and> (obj_get m u = None \<or> obj_get m u = Some good)))"
  by (rule dangling_upstream_ignored [OF chain_acyclic chain_node(1)]) (simp add: asset_def)

text \<open>The two-cycle example, evaluated.\<close>

lemma cycle_graph:
  "collect_timestamps (buildGraphData cycle_materialized) = [(key ''A'', 1), (key ''B'', 1)]"
  "invert_downstream (buildGraphData cycle_materialized) = [(key ''A'', [key ''B'']), (key ''B'', [key ''A''])]"
  "mark_none (buildGraphData cycle_materialized) = []"
  "obj_values (nodes (buildGraphData cycle_materialized)) =
     [\<lparr>node_id = key ''A'', node_assetKey = \<lparr>path = [''A'']\<rparr>,
        node_definition = asset ''A'' [(''x'', ''B'')] [materialized_at 1]\<rparr>,
      \<lparr>node_id = key ''B'', node_assetKey = \<lparr>path = [''B'']\<rparr>,
        node_definition = asset ''B'' [(''y'', ''A'')] [materialized_at 1]\<rparr>]"
  by (simp_all add: collect_timestamps_def invert_downstream_def mark_none_def eval_defs
        cycle_materialized_def key_def timestamp_of_def materialized_at_def push_upstream_def)

lemma cycle_no_result:
  "findComputeStatusForId [(key ''A'', 1), (key ''B'', 1)] []
     [(key ''A'', [key ''B'']), (key ''B'', [key ''A''])] (key ''A'') = None"
proof -
  let ?T = "[(key ''A'', 1 :: rat), (key ''B'', 1)]"
  let ?U = "[(key ''A'', [key ''B'']), (key ''B'', [key ''A''])]"
  have stuck: "\<not> (T = ?T \<and> U = ?U \<and> m = [] \<and> (d = key ''A'' \<or> d = key ''B''))"
    if "findComputeStatusForId T m U d = Some r" for T m U d r
    by (rule findComputeStatusForId.raw_induct
          [where P = "\<lambda>T m U d r. \<not> (T = ?T \<and> U = ?U \<and> m = [] \<and> (d = key ''A'' \<or> d = key ''B''))",
           OF _ that])
       (auto simp: obj_get_def js_gt_def key_neq Option.bind_eq_Some_conv
             split: if_splits option.splits, blast+)
  show ?thesis
  proof (rule ccontr)
    assume "findComputeStatusForId ?T [] ?U (key ''A'') \<noteq> None"
    then obtain r where "findComputeStatusForId ?T [] ?U (key ''A'') = Some r" by auto
    from stuck [OF this] show False by simp
  qed
qed

text \<open>
  C3, as the specification states it, fails: on the two-cycle of A and B, both materialized at the
  same time, the call for A calls B, which calls A again with the memo unchanged, since an
  entry is stored only after the calls for the upstream ids have returned. No status map
  is returned.
\<close>

theorem computeStatuses_no_result_on_cycle:
  "buildGraphComputeStatuses (buildGraphData cycle_materialized) = None"
  unfolding buildGraphComputeStatuses_def cycle_graph
  by (simp add: key_def [symmetric] cycle_no_result)

text \<open>
  C3, amended. On every acyclic graph \<open>buildGraphComputeStatuses\<close> returns a status map,
  and \<open>findComputeStatusForId\<close> returns from every memo and for every id; an id that has a
  status in the memo gets that status back, with the memo unchanged.
\<close>

theorem computeStatuses_returns_on_acyclic:
  assumes "acyclic (edges g)"
  shows "(\<exists>m. buildGraphComputeStatuses g = Some m)
     \<and> (\<exists>r. findComputeStatusForId (collect_timestamps g) statuses (invert_downstream g) d = Some r)
     \<and> (\<forall>st. obj_get statuses d = Some st \<longrightarrow>
           findComputeStatusForId (collect_timestamps g) statuses (invert_downstream g) d
             = Some (st, statuses))"
  using buildGraphComputeStatuses_correct [OF assms]
    findComputeStatusForId_returns [OF wf_upstream_rel [OF assms]]
  by (auto simp: findComputeStatusForId_memo)

theorem computeStatuses_returns_on_acyclic_witness:
  "(\<exists>m. buildGraphComputeStatuses (buildGraphData chain_defs) = Some m)
     \<and> (\<exists>r. findComputeStatusForId (collect_timestamps (buildGraphData chain_defs))
               [(key ''C'', old)] (invert_downstream (buildGraphData chain_defs)) (key ''C'')
             = Some r)
     \<and> findComputeStatusForId (collect_timestamps (buildGraphData chain_defs))
           [(key ''C'', old)] (invert_downstream (buildGraphData chain_defs)) (key ''C'')
         = Some (old, [(key ''C'', old)])"
  using computeStatuses_returns_on_acyclic
          [OF chain_acyclic, of "[(key ''C'', old)]" "key ''C''"]
  by (simp add: obj_get_def)

section \<open>Repeated runs\<close>

lemma newer_upstream_cong:
  assumes "obj_get T = obj_get T'" "set (upstream_ids U d) = set (upstream_ids U' d)"
  shows "newer_upstream T U d = newer_upstream T' U' d"
  using assms by (simp add: newer_upstream_def list_ex_iff)

lemma memo_agree:
  assumes wfR: "wf (upstream_rel U)"
    and memo: "memo_ok T U Z m" "memo_ok T' U' Z m'"
    and same: "obj_get T = obj_get T'" "\<And>d. set (upstream_ids U d) = set (upstream_ids U' d)"
  shows "m d = Some s \<Longrightarrow> m' d = Some s' \<Longrightarrow> s = s'"
  using wfR
proof (induction d arbitrary: s s' rule: wf_induct_rule)
  case (less d)
  show ?case
  proof (cases "d \<in> Z")
    case True
    from memo(1) less.prems(1) True have "s = none" unfolding memo_ok_def by metis
    moreover from memo(2) less.prems(2) True have "s' = none" unfolding memo_ok_def by metis
    ultimately show ?thesis by simp
  next
    case False
    from memo(1) less.prems(1) False have r1: "rule_ok T U m d s" unfolding memo_ok_def by metis
    from memo(2) less.prems(2) False have r2: "rule_ok T' U' m' d s'" unfolding memo_ok_def by metis
    note r = r1 r2
    have n: "newer_upstream T' U' d = newer_upstream T U d"
      using newer_upstream_cong [OF same(1) same(2)] by simp
    show ?thesis
    proof (cases "newer_upstream T U d")
      case True
      with r n show ?thesis by (simp add: rule_ok_def)
    next
      case notnew: False
      have up: "set (upstream_ids U' d) = set (upstream_ids U d)"
        using same(2) [of d] by simp
      have rel: "(u, d) \<in> upstream_rel U" if "u \<in> set (upstream_ids U d)" for u
        using that by (simp add: upstream_rel_def)
      from r(1) notnew consider
        (dfo) u x where "s = downstream_from_old" "u \<in> set (upstream_ids U d)" "m u = Some x"
          "x \<noteq> good"
        | (good) "s = good" "\<forall>u \<in> set (upstream_ids U d). m u = Some good"
        unfolding rule_ok_def by auto
      then show ?thesis
      proof cases
        case dfo
        show ?thesis
        proof (rule ccontr)
          assume "s \<noteq> s'"
          with r(2) notnew n dfo(1) have "\<forall>u \<in> set (upstream_ids U d). m' u = Some good"
            unfolding rule_ok_def up by auto
          with dfo(2) have "m' u = Some good" by simp
          from less.IH [OF rel [OF dfo(2)] dfo(3) this] dfo(4) show False by simp
        qed
      next
        case good
        show ?thesis
        proof (rule ccontr)
          assume "s \<noteq> s'"
          with r(2) notnew n good(1) obtain u x where
            u: "u \<in> set (upstream_ids U d)" "m' u = Some x" "x \<noteq> good"
            unfolding rule_ok_def up by auto
          from good(2) u(1) have "m u = Some good" by simp
          from less.IH [OF rel [OF u(1)] this u(2)] u(3) show False by simp
        qed
      qed
    qed
  qed
qed

lemma nodes_covered:
  assumes "wf_graph g" "k \<in> set (obj_keys (nodes g))"
    "\<forall>n \<in> set (obj_values (nodes g)). JSON_stringify (path (node_assetKey n)) \<in> dom m"
  shows "k \<in> dom m"
proof -
  from assms(2) obtain n where kn: "(k, n) \<in> set (nodes g)" by (auto simp: obj_keys_def)
  then have "JSON_stringify (path (node_assetKey n)) = k" using assms(1) by (auto simp: wf_graph_def)
  moreover have "n \<in> set (obj_values (nodes g))" using kn by (force simp: obj_values_def)
  ultimately show ?thesis using assms(3) by auto
qed

lemma statuses_agree:
  assumes "wf_graph g" "wf_graph g'" "acyclic (edges g)"
    "obj_get (nodes g') = obj_get (nodes g)" "edges g' = edges g"
  shows "\<exists>m m'. buildGraphComputeStatuses g = Some m \<and> buildGraphComputeStatuses g' = Some m'
     \<and> (\<forall>k \<in> set (obj_keys (nodes g)). \<exists>s. obj_get m k = Some s \<and> obj_get m' k = Some s)"
proof -
  have ac': "acyclic (edges g')" using assms(3,5) by simp
  from buildGraphComputeStatuses_correct [OF assms(3)]
  obtain m where m: "buildGraphComputeStatuses g = Some m"
    "memo_ok (collect_timestamps g) (invert_downstream g) (dom (obj_get (mark_none g))) (obj_get m)"
    "\<forall>n \<in> set (obj_values (nodes g)). JSON_stringify (path (node_assetKey n)) \<in> dom (obj_get m)"
    by blast
  from buildGraphComputeStatuses_correct [OF ac']
  obtain m' where m': "buildGraphComputeStatuses g' = Some m'"
    "memo_ok (collect_timestamps g') (invert_downstream g') (dom (obj_get (mark_none g'))) (obj_get m')"
    "\<forall>n \<in> set (obj_values (nodes g')). JSON_stringify (path (node_assetKey n)) \<in> dom (obj_get m')"
    by blast
  have Z: "dom (obj_get (mark_none g')) = dom (obj_get (mark_none g))"
    by (auto simp: mark_none_get [OF assms(1)] mark_none_get [OF assms(2)] assms(4) domIff)
  have T: "obj_get (collect_timestamps g) = obj_get (collect_timestamps g')"
    by (rule ext) (simp add: collect_timestamps_get [OF assms(1)] collect_timestamps_get [OF assms(2)]
        node_timestamp_def assms(4))
  have U: "set (upstream_ids (invert_downstream g) d) = set (upstream_ids (invert_downstream g') d)" for d
    by (simp add: upstream_ids_invert assms(5))
  have keys: "set (obj_keys (nodes g')) = set (obj_keys (nodes g))"
  proof -
    have "set (obj_keys (nodes h)) = dom (obj_get (nodes h))" for h :: GraphData
      by (simp add: obj_keys_def obj_get_def [abs_def] dom_map_of_conv_image_fst)
    then show ?thesis by (simp add: assms(4))
  qed
  have "\<exists>s. obj_get m k = Some s \<and> obj_get m' k = Some s" if k: "k \<in> set (obj_keys (nodes g))" for k
  proof -
    from nodes_covered [OF assms(1) k m(3)] obtain s where s: "obj_get m k = Some s" by auto
    from nodes_covered [OF assms(2) _ m'(3)] k keys obtain s' where s': "obj_get m' k = Some s'" by auto
    from memo_agree [OF wf_upstream_rel [OF assms(3)] m(2) m'(2) [unfolded Z] T U s s']
    show ?thesis using s s' by simp
  qed
  with m(1) m'(1) show ?thesis by blast
qed

lemma chain_reordered_graph:
  "nodes chain_reordered =
     [(key ''N'', \<lparr>node_id = key ''N'', node_assetKey = \<lparr>path = [''N'']\<rparr>,
                   node_definition = asset ''N'' [(''x'', ''C'')] []\<rparr>),
      (key ''C'', \<lparr>node_id = key ''C'', node_assetKey = \<lparr>path = [''C'']\<rparr>,
                   node_definition = asset ''C'' [(''x'', ''B'')] [materialized_at 20]\<rparr>),
      (key ''B'', \<lparr>node_id = key ''B'', node_assetKey = \<lparr>path = [''B'']\<rparr>,
                   node_definition = asset ''B'' [(''x'', ''A'')] [materialized_at 5]\<rparr>),
      (key ''A'', \<lparr>node_id = key ''A'', node_assetKey = \<lparr>path = [''A'']\<rparr>,
                   node_definition = asset ''A'' [(''in'', ''G'')] [materialized_at 10]\<rparr>)]"
  "downstream chain_reordered =
     [(key ''C'', [(key ''N'', ''x'')]), (key ''B'', [(key ''C'', ''x'')]),
      (key ''A'', [(key ''B'', ''x'')]), (key ''G'', [(key ''A'', ''in'')])]"
  by (simp_all add: chain_reordered_def chain_nodes chain_downstream)

lemma chain_reordered_wf: "wf_graph chain_reordered"
  unfolding wf_graph_def chain_reordered_graph
  by (simp add: obj_keys_def chain_keys key_def [symmetric])

lemma chain_reordered_nodes:
  "obj_get (nodes chain_reordered) = obj_get (nodes (buildGraphData chain_defs))"
  unfolding chain_reordered_graph chain_nodes
  by (rule ext) (simp add: obj_get_def chain_keys)

lemma chain_reordered_edges: "edges chain_reordered = edges (buildGraphData chain_defs)"
  unfolding chain_edges
  unfolding edges_code downstream_keys_def chain_reordered_graph
  by (auto simp: obj_keys_def obj_get_def chain_keys)

lemma chain_reordered_statuses:
  "buildGraphComputeStatuses chain_reordered =
     Some [(key ''N'', none), (key ''B'', old), (key ''C'', downstream_from_old),
           (key ''G'', good), (key ''A'', good)]"
proof -
  have T: "collect_timestamps chain_reordered =
      [(key ''N'', 0), (key ''C'', 20), (key ''B'', 5), (key ''A'', 10)]"
    unfolding collect_timestamps_def chain_reordered_graph
    by (simp add: obj_values_def obj_set_def timestamp_of_def asset_def materialized_at_def chain_keys)
  have U: "invert_downstream chain_reordered =
      [(key ''N'', [key ''C'']), (key ''C'', [key ''B'']), (key ''B'', [key ''A'']),
       (key ''A'', [key ''G''])]"
    unfolding invert_downstream_def downstream_keys_def chain_reordered_graph
    by (simp add: obj_keys_def obj_get_def obj_set_def push_upstream_def chain_keys)
  have Z: "mark_none chain_reordered = [(key ''N'', none)]"
    unfolding mark_none_def chain_reordered_graph
    by (simp add: obj_values_def obj_set_def asset_def)
  show ?thesis
    unfolding buildGraphComputeStatuses_def T U Z
    unfolding chain_reordered_graph
    by (simp add: obj_values_def key_def [symmetric] find_eval obj_get_def obj_set_def chain_keys)
qed

text \<open>
  C8. \<open>buildGraphData\<close> and \<open>buildGraphComputeStatuses\<close> are functions of their argument:
  every object they change is created in the call. Two runs on the same definition list,
  with an acyclic graph, return status maps that give every node the same status, also when
  the second run enumerates the keys of the graph's objects in another order (the graph
  \<open>g'\<close> has the nodes and the edges of the built graph, in any order).
\<close>

theorem statuses_deterministic:
  assumes "acyclic (edges (buildGraphData defs))" "wf_graph g'"
    "obj_get (nodes g') = obj_get (nodes (buildGraphData defs))"
    "edges g' = edges (buildGraphData defs)"
  shows "\<exists>m m'. buildGraphComputeStatuses (buildGraphData defs) = Some m
     \<and> buildGraphComputeStatuses g' = Some m'
     \<and> (\<forall>k \<in> set (obj_keys (nodes (buildGraphData defs))).
           \<exists>s. obj_get m k = Some s \<and> obj_get m' k = Some s)"
  by (rule statuses_agree [OF buildGraphData_wf assms(2,1,3,4)])

theorem statuses_deterministic_witness:
  "(\<exists>m m'. buildGraphComputeStatuses (buildGraphData chain_defs) = Some m
        \<and> buildGraphComputeStatuses chain_reordered = Some m'
        \<and> (\<forall>k \<in> set (obj_keys (nodes (buildGraphData chain_defs))).
              \<exists>s. obj_get m k = Some s \<and> obj_get m' k = Some s))
   \<and> buildGraphComputeStatuses (buildGraphData chain_defs) =
       Some [(key ''N'', none), (key ''G'', good), (key ''A'', good), (key ''B'', old),
             (key ''C'', downstream_from_old)]
   \<and> buildGraphComputeStatuses chain_reordered =
       Some [(key ''N'', none), (key ''B'', old), (key ''C'', downstream_from_old),
             (key ''G'', good), (key ''A'', good)]"
  using statuses_deterministic [OF chain_acyclic chain_reordered_wf
          chain_reordered_nodes chain_reordered_edges]
    chain_statuses chain_reordered_statuses
  by blast

end
